theory Spec2Isabelle
  imports Main
begin

text \<open>
  The sources hold three versions of the library.  In lib/index.js a sequence is an object
  with a method \<^verbatim>\<open>next\<close>, and the combinators return such objects.  In src/index.ts the
  combinators are generator functions.  A later version of index.ts (the source file
  unnamed/part_001, called the newest index.ts below) adds \<^verbatim>\<open>copy\<close> and builds \<^verbatim>\<open>combine\<close> on
  it; \<^verbatim>\<open>range\<close>, \<^verbatim>\<open>take\<close>, \<^verbatim>\<open>filterMap\<close> and \<^verbatim>\<open>concat\<close> have the same bodies in both versions of
  index.ts, which are called the TypeScript sources where they agree.  Inputs of the
  TypeScript combinators are generator objects, whose iterator is the object itself.
\<close>

section \<open>JavaScript values and iteration results\<close>

text \<open>
  The library is dynamically typed: one sequence may yield numbers, another arrays of
  numbers, and \<open>combine\<close> puts both kinds into one list.  Values are therefore one
  datatype.  The numbers that occur are integers, and \<open>VNum\<close> holds them as mathematical
  integers (the tests and the documentation only use integral arguments).  A JavaScript
  number is an IEEE-754 double, so the arithmetic of the sources is the arithmetic of
  integers only from \<open>- 2 ^ 53\<close> to \<open>2 ^ 53\<close>; \<open>js_increment\<close> below is the operation \<^verbatim>\<open>i++\<close> of \<^verbatim>\<open>range\<close> on
  doubles.
\<close>

datatype val = VUndefined | VNull | VBool bool | VNum int | VStr string | VArr "val list"

text \<open>The truthiness test of \<^verbatim>\<open>if (x)\<close>: arrays are objects and always truthy.\<close>

fun truthy :: "val \<Rightarrow> bool" where
  "truthy VUndefined = False"
| "truthy VNull = False"
| "truthy (VBool b) = b"
| "truthy (VNum n) = (n \<noteq> 0)"
| "truthy (VStr s) = (s \<noteq> [])"
| "truthy (VArr xs) = True"

text \<open>An iteration result \<^verbatim>\<open>{ value, done }\<close>.\<close>

datatype iteration = Iteration (it_value: val) (it_done: bool)

text \<open>
  A sequence is an object with a method \<^verbatim>\<open>next\<close> that mutates the object.  It is modelled
  by the state \<open>'s\<close> of the object and a step function on that state; the result \<open>None\<close>
  stands for a call of \<^verbatim>\<open>next\<close> that does not return.
\<close>

type_synonym 's nextfn = "'s \<Rightarrow> (iteration \<times> 's) option"

text \<open>
  \<^verbatim>\<open>i++\<close> on a number that holds an integer.  Every integer from \<open>- 2 ^ 53\<close> to \<open>2 ^ 53\<close> is a
  double, so there \<open>i + 1\<close> is exact.  Outside, the doubles are two apart up to \<open>2 ^ 54\<close> in
  absolute value and at least four apart beyond: \<open>i + 1\<close> lies halfway between two doubles
  or nearest to \<open>i\<close>, and rounding to nearest with ties to the even significand gives the
  multiple of four among \<open>i\<close> and \<open>i + 2\<close>, or \<open>i\<close> itself.  In particular \<open>2 ^ 53\<close> is not changed
  by \<^verbatim>\<open>i++\<close>.  The arguments are integers that are doubles.
\<close>

definition js_increment :: "int \<Rightarrow> int" where
  "js_increment i =
     (if - (2 ^ 53) \<le> i \<and> i < 2 ^ 53 then i + 1
      else if \<bar>i\<bar> < 2 ^ 54 \<and> i mod 4 = 2 then i + 2
      else i)"

text \<open>Reading \<^verbatim>\<open>array[i]\<close>: out of range gives \<^verbatim>\<open>undefined\<close>.\<close>

definition js_index :: "val list \<Rightarrow> nat \<Rightarrow> val" where
  "js_index xs i = (if i < length xs then xs ! i else VUndefined)"

text \<open>
  \<open>pulls nx s its\<close> replays a list of iteration results: it is \<open>Some s'\<close> exactly when
  \<open>length its\<close> consecutive calls of \<^verbatim>\<open>next\<close> starting in state \<open>s\<close> return the results
  \<open>its\<close> in this order and leave the sequence in state \<open>s'\<close>.
\<close>

fun pulls :: "'s nextfn \<Rightarrow> 's \<Rightarrow> iteration list \<Rightarrow> 's option" where
  "pulls nx s [] = Some s"
| "pulls nx s (it # its) =
     (case nx s of
        None \<Rightarrow> None
      | Some (it', s') \<Rightarrow> if it' = it then pulls nx s' its else None)"

text \<open>
  A spy around a sequence: it behaves as the sequence does and counts the calls of
  \<^verbatim>\<open>next\<close> that were made on it.
\<close>

definition counted :: "'s nextfn \<Rightarrow> ('s \<times> nat) nextfn" where
  "counted nx = (\<lambda>(s, n). map_option (\<lambda>(it, s'). (it, (s', Suc n))) (nx s))"

text \<open>
  \<open>seq_yields nx s xs\<close>: the sequence in state \<open>s\<close> is finite and well behaved, it yields
  the values \<open>xs\<close> and then signals done with no value.
\<close>

fun seq_yields :: "'s nextfn \<Rightarrow> 's \<Rightarrow> val list \<Rightarrow> bool" where
  "seq_yields nx s [] =
     (case nx s of
        None \<Rightarrow> False
      | Some (it, s') \<Rightarrow> it_done it \<and> it_value it = VUndefined)"
| "seq_yields nx s (x # xs) =
     (case nx s of
        None \<Rightarrow> False
      | Some (it, s') \<Rightarrow> \<not> it_done it \<and> it_value it = x \<and> seq_yields nx s' xs)"

section \<open>The iterator-object library (lib/index.js)\<close>

subsection \<open>range\<close>

text \<open>
  \<^verbatim>\<open>range(min, max)\<close> returns an object that captures \<^verbatim>\<open>i\<close> (initially \<^verbatim>\<open>min\<close>) and \<^verbatim>\<open>max\<close>.
\<close>

datatype range_state = RangeState (range_i: int) (range_max: int)

definition lib_range :: "int \<Rightarrow> int \<Rightarrow> range_state" where
  "lib_range mn mx = RangeState mn mx"

definition lib_range_next :: "range_state nextfn" where
  "lib_range_next r =
     (if range_i r \<le> range_max r
      then Some (Iteration (VNum (range_i r)) False,
                 RangeState (js_increment (range_i r)) (range_max r))
      else Some (Iteration VNull True, r))"

subsection \<open>fromArray\<close>

datatype array_state = ArrayState (array_items: "val list") (array_offset: nat)

definition lib_fromArray :: "val list \<Rightarrow> array_state" where
  "lib_fromArray array = ArrayState array 0"

definition lib_fromArray_next :: "array_state nextfn" where
  "lib_fromArray_next a =
     (if array_offset a < length (array_items a)
      then Some (Iteration (array_items a ! array_offset a) False,
                 ArrayState (array_items a) (array_offset a + 1))
      else Some (Iteration VNull True, a))"

subsection \<open>forEach, toArray and take\<close>

text \<open>
  The counter \<^verbatim>\<open>count\<close> of \<^verbatim>\<open>take\<close> is an integer, and \<^verbatim>\<open>count--\<close> is the subtraction of
  integers: it is exact for every count up to \<open>2 ^ 53\<close>, and the result array cannot hold
  that many values (the length of an array is below \<open>2 ^ 32\<close>).
\<close>

text \<open>
  \<^verbatim>\<open>forEach\<close> loops until the sequence signals done; the callback may have an effect, which
  is the state \<open>'c\<close> here.  The loop does not end on an infinite sequence.
\<close>

partial_function (option) lib_forEach ::
  "'s nextfn \<Rightarrow> (val \<Rightarrow> 'c \<Rightarrow> 'c) \<Rightarrow> 's \<Rightarrow> 'c \<Rightarrow> ('c \<times> 's) option" where
  "lib_forEach nx iterator s c =
     Option.bind (nx s) (\<lambda>(iteration, s').
       if it_done iteration then Some (c, s')
       else lib_forEach nx iterator s' (iterator (it_value iteration) c))"

declare lib_forEach.simps [code]

definition lib_toArray :: "'s nextfn \<Rightarrow> 's \<Rightarrow> (val list \<times> 's) option" where
  "lib_toArray nx s = lib_forEach nx (\<lambda>v results. results @ [v]) s []"

function lib_take_loop ::
  "'s nextfn \<Rightarrow> 's \<Rightarrow> int \<Rightarrow> val list \<Rightarrow> (val list \<times> 's) option" where
  "lib_take_loop nx s count result =
     (if count > 0 then
        (case nx s of
           None \<Rightarrow> None
         | Some (iteration, s') \<Rightarrow>
             if it_done iteration then Some (result, s')
             else lib_take_loop nx s' (count - 1) (result @ [it_value iteration]))
      else Some (result, s))"
  by pat_completeness auto
termination
  by (relation "measure (\<lambda>(nx, s, count, result). nat count)") auto

definition lib_take :: "'s nextfn \<Rightarrow> 's \<Rightarrow> int \<Rightarrow> (val list \<times> 's) option" where
  "lib_take nx s count = lib_take_loop nx s count []"

section \<open>The generator-based library (src/index.ts)\<close>

text \<open>
  Here every sequence is a generator object.  A generator that has run to its end
  answers every later call of \<^verbatim>\<open>next\<close> with \<^verbatim>\<open>{ value: undefined, done: true }\<close>.
\<close>

subsection \<open>range\<close>

text \<open>
  \<^verbatim>\<open>for (let i = min; i <= max; i++) { yield i; }\<close>: the loop variable only grows, so a
  generator that has left the loop is one whose \<^verbatim>\<open>i\<close> exceeds \<^verbatim>\<open>max\<close>.
\<close>

definition ts_range :: "int \<Rightarrow> int \<Rightarrow> range_state" where
  "ts_range mn mx = RangeState mn mx"

definition ts_range_next :: "range_state nextfn" where
  "ts_range_next r =
     (if range_i r \<le> range_max r
      then Some (Iteration (VNum (range_i r)) False,
                 RangeState (js_increment (range_i r)) (range_max r))
      else Some (Iteration VUndefined True, r))"

subsection \<open>take and toArray\<close>

text \<open>
  \<^verbatim>\<open>take\<close> of the TypeScript sources pushes the value that comes with the done signal
  when that value is not \<^verbatim>\<open>undefined\<close>.
\<close>

function ts_take_loop ::
  "'s nextfn \<Rightarrow> 's \<Rightarrow> int \<Rightarrow> val list \<Rightarrow> (val list \<times> 's) option" where
  "ts_take_loop nx s count result =
     (if count > 0 then
        (case nx s of
           None \<Rightarrow> None
         | Some (iteration, s') \<Rightarrow>
             if it_done iteration then
               (if it_value iteration \<noteq> VUndefined
                then Some (result @ [it_value iteration], s')
                else Some (result, s'))
             else ts_take_loop nx s' (count - 1) (result @ [it_value iteration]))
      else Some (result, s))"
  by pat_completeness auto
termination
  by (relation "measure (\<lambda>(nx, s, count, result). nat count)") auto

definition ts_take :: "'s nextfn \<Rightarrow> 's \<Rightarrow> int \<Rightarrow> (val list \<times> 's) option" where
  "ts_take nx s count = ts_take_loop nx s count []"

text \<open>\<^verbatim>\<open>Array.from(iterable)\<close> collects the values up to the first done signal.\<close>

partial_function (option) ts_toArray_loop ::
  "'s nextfn \<Rightarrow> 's \<Rightarrow> val list \<Rightarrow> (val list \<times> 's) option" where
  "ts_toArray_loop nx s result =
     Option.bind (nx s) (\<lambda>(iteration, s').
       if it_done iteration then Some (result, s')
       else ts_toArray_loop nx s' (result @ [it_value iteration]))"

declare ts_toArray_loop.simps [code]

definition ts_toArray :: "'s nextfn \<Rightarrow> 's \<Rightarrow> (val list \<times> 's) option" where
  "ts_toArray nx s = ts_toArray_loop nx s []"

subsection \<open>A generator with a return value\<close>

text \<open>
  The generator object of \<^verbatim>\<open>function* () { return v; }\<close>: its first call of \<^verbatim>\<open>next\<close> gives
  \<^verbatim>\<open>{ value: v, done: true }\<close>.  The state says whether the body has run.
\<close>

definition ts_return_next :: "val \<Rightarrow> bool nextfn" where
  "ts_return_next v completed =
     (if completed then Some (Iteration VUndefined True, True)
      else Some (Iteration v True, True))"

text \<open>
  The generator object of \<^verbatim>\<open>function* () { yield* xs; return v; }\<close> for an array \<open>xs\<close>: it
  yields the values of \<open>xs\<close>, then gives \<^verbatim>\<open>{ value: v, done: true }\<close> once.  The state is the
  values still to be yielded and whether the body has run.
\<close>

definition ts_yield_return_next :: "val \<Rightarrow> (val list \<times> bool) nextfn" where
  "ts_yield_return_next v = (\<lambda>(xs, completed).
     if completed then Some (Iteration VUndefined True, (xs, True))
     else (case xs of
             x # xs' \<Rightarrow> Some (Iteration x False, (xs', False))
           | [] \<Rightarrow> Some (Iteration v True, ([], True))))"

section \<open>filterMap in both libraries\<close>

text \<open>
  The caller's \<^verbatim>\<open>transform(value, skip)\<close> may have effects of its own, which are the state
  \<open>'w\<close>.  It returns its result together with the flag whether it has called \<^verbatim>\<open>skip\<close>,
  that is, the value of the local variable \<^verbatim>\<open>skipped\<close> after the call.
\<close>

type_synonym 'w transform = "val \<Rightarrow> 'w \<Rightarrow> (val \<times> bool) \<times> 'w"

text \<open>lib/index.js: only a call of \<^verbatim>\<open>skip\<close> discards a value.\<close>

partial_function (option) lib_filterMap_next ::
  "'s nextfn \<Rightarrow> 'w transform \<Rightarrow> ('s \<times> 'w) nextfn" where
  "lib_filterMap_next nx transform sw =
     (case sw of (s, w) \<Rightarrow>
        Option.bind (nx s) (\<lambda>(iteration, s').
          if it_done iteration then Some (iteration, (s', w))
          else (case transform (it_value iteration) w of ((mapped, skipped), w') \<Rightarrow>
            if skipped then lib_filterMap_next nx transform (s', w')
            else Some (Iteration mapped (it_done iteration), (s', w')))))"

declare lib_filterMap_next.simps [code]

text \<open>
  The generator functions of the TypeScript sources are loops \<^verbatim>\<open>for (const value of iterable)\<close>
  around a \<^verbatim>\<open>yield\<close>.  The state of such a generator object is the iterator of the loop and
  whether the generator has completed.  The input is itself a generator object, whose
  iterator is the object itself.
\<close>

datatype 's forof = ForOf (forof_iterator: 's) (forof_completed: bool)

partial_function (option) ts_filterMap_next ::
  "'s nextfn \<Rightarrow> 'w transform \<Rightarrow> ('s forof \<times> 'w) nextfn" where
  "ts_filterMap_next nx transform gw =
     (case gw of (g, w) \<Rightarrow>
        if forof_completed g then Some (Iteration VUndefined True, (g, w))
        else Option.bind (nx (forof_iterator g)) (\<lambda>(iteration, s').
          if it_done iteration then Some (Iteration VUndefined True, (ForOf s' True, w))
          else (case transform (it_value iteration) w of ((mappedValue, skipped), w') \<Rightarrow>
            if \<not> skipped \<and> mappedValue \<noteq> VUndefined
            then Some (Iteration mappedValue False, (ForOf s' False, w'))
            else ts_filterMap_next nx transform (ForOf s' False, w'))))"

declare ts_filterMap_next.simps [code]

text \<open>
  Two spies: a sequence that records the values pulled from it, and a transform that
  records the values it was called with.
\<close>

definition spy_pulls :: "'s nextfn \<Rightarrow> ('s \<times> val list) nextfn" where
  "spy_pulls nx = (\<lambda>(s, p).
     map_option (\<lambda>(it, s'). (it, (s', if it_done it then p else p @ [it_value it]))) (nx s))"

definition spy_calls :: "'w transform \<Rightarrow> ('w \<times> val list) transform" where
  "spy_calls transform v = (\<lambda>(w, q). case transform v w of (res, w') \<Rightarrow> (res, (w', q @ [v])))"

text \<open>
  Transforms used as inputs.  \<^verbatim>\<open>function (n) { if (n % 2 !== 0) { return -n; } }\<close> returns
  \<^verbatim>\<open>undefined\<close> for an even number without calling \<^verbatim>\<open>skip\<close>; the transform of the test
  suite calls \<^verbatim>\<open>skip\<close> instead; \<open>counting\<close> adds an effect, a counter of the calls.
\<close>

definition negate_odd :: "unit transform" where
  "negate_odd v w =
     (case v of VNum n \<Rightarrow> if n mod 2 \<noteq> 0 then ((VNum (- n), False), w) else ((VUndefined, False), w)
      | _ \<Rightarrow> ((VUndefined, False), w))"

definition negate_odd_skip :: "unit transform" where
  "negate_odd_skip v w =
     (case v of VNum n \<Rightarrow> if n mod 2 = 0 then ((VUndefined, True), w) else ((VNum (- n), False), w)
      | _ \<Rightarrow> ((VUndefined, False), w))"


definition counting :: "unit transform \<Rightarrow> nat transform" where
  "counting transform v n = (fst (transform v ()), Suc n)"

subsection \<open>copy\<close>

text \<open>
  The variables captured by the closures of \<^verbatim>\<open>copy(iterable)\<close>: the underlying generator,
  \<^verbatim>\<open>values\<close>, \<^verbatim>\<open>indexes\<close>, \<^verbatim>\<open>done\<close> and \<^verbatim>\<open>maxIndex\<close>, where \<open>None\<close> is \<^verbatim>\<open>Infinity\<close>.  The array
  \<^verbatim>\<open>iterators\<close> always has the length of \<^verbatim>\<open>indexes\<close>, and its entries are the closures
  themselves; it is not part of the state.  The underlying \<^verbatim>\<open>iterable\<close> is a generator
  object, so that \<^verbatim>\<open>iterable[Symbol.iterator]()\<close> in \<^verbatim>\<open>take\<close> is the object itself.
\<close>

datatype 'u copy_state = CopyState
  (copy_iterable: 'u)
  (copy_values: "val list")
  (copy_indexes: "nat list")
  (copy_done: bool)
  (copy_maxIndex: "int option")

definition copy :: "'u \<Rightarrow> 'u copy_state" where
  "copy iterable = CopyState iterable [] [] False None"

text \<open>
  The loop \<^verbatim>\<open>while (values.length <= index)\<close> with its body \<^verbatim>\<open>if (!done) { ... }\<close>: when
  \<^verbatim>\<open>done\<close> is set the body does nothing and the loop is entered again in the same state.
\<close>

partial_function (option) getIteratorResultAtIndex ::
  "'u nextfn \<Rightarrow> 'u copy_state \<Rightarrow> nat \<Rightarrow> (iteration \<times> 'u copy_state) option" where
  "getIteratorResultAtIndex nx c index =
     (if length (copy_values c) \<le> index then
        (if \<not> copy_done c then
           Option.bind (ts_take nx (copy_iterable c) 1) (\<lambda>(valueArray, iterable').
             getIteratorResultAtIndex nx
               (if length valueArray = 0
                then CopyState iterable' (copy_values c @ [js_index valueArray 0]) (copy_indexes c)
                       True (Some (int (length (copy_values c)) - 1))
                else CopyState iterable' (copy_values c @ [js_index valueArray 0]) (copy_indexes c)
                       (copy_done c) (copy_maxIndex c))
               index)
         else getIteratorResultAtIndex nx c index)
      else Some (Iteration (js_index (copy_values c) index)
                   (case copy_maxIndex c of None \<Rightarrow> False | Some m \<Rightarrow> int index > m), c))"

declare getIteratorResultAtIndex.simps [code]

text \<open>
  \<^verbatim>\<open>[Symbol.iterator]()\<close> of the copy makes a new cursor, \<^verbatim>\<open>indexes[id] = 0\<close> with
  \<^verbatim>\<open>id = iterators.length\<close>, and returns it.  The cursor's \<^verbatim>\<open>next\<close> is
  \<^verbatim>\<open>getIteratorResultAtIndex(indexes[id]++)\<close>.
\<close>

definition copy_iterator :: "'u copy_state \<Rightarrow> nat \<times> 'u copy_state" where
  "copy_iterator c =
     (length (copy_indexes c),
      CopyState (copy_iterable c) (copy_values c) (copy_indexes c @ [0])
        (copy_done c) (copy_maxIndex c))"

definition copy_next :: "'u nextfn \<Rightarrow> 'u copy_state \<Rightarrow> nat \<Rightarrow> (iteration \<times> 'u copy_state) option" where
  "copy_next nx c ident =
     (let index = copy_indexes c ! ident
      in getIteratorResultAtIndex nx
           (CopyState (copy_iterable c) (copy_values c) ((copy_indexes c)[ident := index + 1])
              (copy_done c) (copy_maxIndex c))
           index)"

text \<open>
  An interleaving of iterations over one copy is a list of operations: make a new
  cursor, or call \<^verbatim>\<open>next\<close> on the cursor with a given id.  \<open>run_script\<close> performs them and
  collects the results of the calls of \<^verbatim>\<open>next\<close>.
\<close>

datatype copy_op = NewIterator | Next nat

fun run_script ::
  "'u nextfn \<Rightarrow> 'u copy_state \<Rightarrow> copy_op list \<Rightarrow> (iteration list \<times> 'u copy_state) option" where
  "run_script nx c [] = Some ([], c)"
| "run_script nx c (NewIterator # ops) = run_script nx (snd (copy_iterator c)) ops"
| "run_script nx c (Next ident # ops) =
     Option.bind (copy_next nx c ident) (\<lambda>(it, c').
       Option.bind (run_script nx c' ops) (\<lambda>(its, c''). Some (it # its, c'')))"

text \<open>
  \<open>script_ok n pos ops\<close>: every call of \<^verbatim>\<open>next\<close> in \<open>ops\<close> is on an existing cursor that has
  been advanced at most \<open>n\<close> times before, where \<open>pos\<close> are the positions of the cursors.
  Over a sequence of \<open>n\<close> values this is a cursor that has not yet returned done: a loop
  \<^verbatim>\<open>for ... of\<close> and \<^verbatim>\<open>Array.from\<close> stop there.  \<open>script_results\<close> are the results that
  replaying the values \<open>xs\<close> to every cursor gives.
\<close>

fun script_ok :: "nat \<Rightarrow> nat list \<Rightarrow> copy_op list \<Rightarrow> bool" where
  "script_ok n pos [] = True"
| "script_ok n pos (NewIterator # ops) = script_ok n (pos @ [0]) ops"
| "script_ok n pos (Next ident # ops) =
     (ident < length pos \<and> pos ! ident \<le> n \<and> script_ok n (pos[ident := pos ! ident + 1]) ops)"

fun script_results :: "val list \<Rightarrow> nat list \<Rightarrow> copy_op list \<Rightarrow> iteration list" where
  "script_results xs pos [] = []"
| "script_results xs pos (NewIterator # ops) = script_results xs (pos @ [0]) ops"
| "script_results xs pos (Next ident # ops) =
     Iteration (js_index xs (pos ! ident)) (length xs \<le> pos ! ident)
       # script_results xs (pos[ident := pos ! ident + 1]) ops"


definition two_interleaved :: "copy_op list" where
  "two_interleaved =
     [NewIterator, Next 0, NewIterator, Next 1, Next 1, Next 0, Next 0, Next 1, Next 1, Next 0]"

text \<open>
  The invariant of a copy of a sequence that yields \<open>xs\<close>: the cache is a front of \<open>xs\<close>,
  followed by the \<^verbatim>\<open>undefined\<close> that is pushed when the end is found; \<^verbatim>\<open>done\<close> and \<^verbatim>\<open>maxIndex\<close>
  are set exactly then; until then the underlying sequence yields the rest of \<open>xs\<close>.
\<close>

definition copy_inv :: "'u nextfn \<Rightarrow> val list \<Rightarrow> 'u copy_state \<Rightarrow> bool" where
  "copy_inv nx xs c \<longleftrightarrow>
     length (copy_values c) \<le> length xs + 1
     \<and> copy_values c = take (length (copy_values c)) (xs @ [VUndefined])
     \<and> (copy_done c \<longleftrightarrow> length (copy_values c) = length xs + 1)
     \<and> copy_maxIndex c = (if copy_done c then Some (int (length xs) - 1) else None)
     \<and> (\<not> copy_done c \<longrightarrow>
          seq_yields nx (copy_iterable c) (drop (length (copy_values c)) xs))"

text \<open>No cursor is ahead of the cache, and the cache ends where the furthest cursor is.\<close>

definition cursors_inv :: "'u copy_state \<Rightarrow> bool" where
  "cursors_inv c \<longleftrightarrow>
     (\<forall>p \<in> set (copy_indexes c). p \<le> length (copy_values c))
     \<and> (length (copy_values c) = 0 \<or> length (copy_values c) \<in> set (copy_indexes c))"

section \<open>The sequence objects of lib/index.js: map, concat and combine\<close>

text \<open>\<^verbatim>\<open>map(generator, transformer)\<close>, for any sequence.\<close>

definition lib_map_next :: "'s nextfn \<Rightarrow> (val \<Rightarrow> val) \<Rightarrow> 's nextfn" where
  "lib_map_next nx transformer s =
     Option.bind (nx s) (\<lambda>(iteration, s').
       if it_done iteration then Some (iteration, s')
       else Some (Iteration (transformer (it_value iteration)) False, s'))"

text \<open>
  The monotonicity that the definition of \<open>lgen_next\<close> below needs, where \<^verbatim>\<open>map\<close> is
  applied to a sequence whose \<^verbatim>\<open>next\<close> is being defined.
\<close>

lemma lib_map_next_mono [partial_function_mono]:
  assumes "\<And>s. mono_option (\<lambda>f. nx f s)"
  shows "mono_option (\<lambda>f. lib_map_next (nx f) transformer s)"
  unfolding lib_map_next_def by (intro partial_function_mono assms)

text \<open>
  \<^verbatim>\<open>concat\<close> and \<^verbatim>\<open>combine\<close> take a list of sequences and return one that may be one of the
  list, so the objects they handle are one datatype: a sequence of the caller with
  state \<open>'s\<close>; the object \<^verbatim>\<open>{ next: function() { return { value: null, done: true }; } }\<close>;
  the object of \<^verbatim>\<open>map\<close>; the object of \<^verbatim>\<open>concat\<close> with its \<^verbatim>\<open>generators\<close> and \<^verbatim>\<open>offset\<close>; the
  object of \<^verbatim>\<open>combine\<close> for two sequences with \<^verbatim>\<open>left\<close>, \<^verbatim>\<open>allRight\<close>, \<^verbatim>\<open>leftIteration\<close>
  (\<open>None\<close> when it is unset or \<^verbatim>\<open>null\<close>) and \<^verbatim>\<open>rightOffset\<close>.
\<close>

datatype 's lgen =
    LSrc 's
  | LDone
  | LMap "'s lgen" "val \<Rightarrow> val"
  | LConcat "'s lgen list" nat
  | LCombine "'s lgen" "val list" "iteration option" nat

partial_function (option) lgen_next :: "'s nextfn \<Rightarrow> 's lgen nextfn" where
  "lgen_next nx g =
     (case g of
        LSrc s \<Rightarrow> Option.bind (nx s) (\<lambda>(iteration, s'). Some (iteration, LSrc s'))
      | LDone \<Rightarrow> Some (Iteration VNull True, LDone)
      | LMap generator transformer \<Rightarrow>
          Option.bind (lib_map_next (\<lambda>u. lgen_next nx u) transformer generator)
            (\<lambda>(iteration, generator'). Some (iteration, LMap generator' transformer))
      | LConcat generators offset \<Rightarrow>
          if offset \<ge> length generators then Some (Iteration VNull True, g)
          else Option.bind (lgen_next nx (generators ! offset)) (\<lambda>(iteration, g').
            if it_done iteration
            then lgen_next nx (LConcat (generators[offset := g']) (offset + 1))
            else Some (iteration, LConcat (generators[offset := g']) offset))
      | LCombine left allRight leftIteration rightOffset \<Rightarrow>
          Option.bind
            (case leftIteration of
               None \<Rightarrow> lgen_next nx left
             | Some li \<Rightarrow> Some (li, left))
            (\<lambda>(li, left').
               if it_done li then Some (li, LCombine left' allRight (Some li) rightOffset)
               else
                 (let nextRight = js_index allRight rightOffset in
                  if truthy nextRight
                  then Some (Iteration (VArr [it_value li, nextRight]) False,
                             LCombine left' allRight (Some li) (rightOffset + 1))
                  else lgen_next nx (LCombine left' allRight None 0))))"

declare lgen_next.simps [code]

definition lib_concat :: "'s lgen list \<Rightarrow> 's lgen" where
  "lib_concat generators =
     (case generators of
        [] \<Rightarrow> LDone
      | [g] \<Rightarrow> g
      | _ \<Rightarrow> LConcat generators 0)"

text \<open>
  The two transformers of \<^verbatim>\<open>combine\<close>: \<^verbatim>\<open>function(value) { return [value]; }\<close> and the one
  that puts the head in front of a copy of the tail.  The latter is only applied to
  pairs whose second component is an array.
\<close>

definition wrap :: "val \<Rightarrow> val" where
  "wrap v = VArr [v]"

fun unshift_head :: "val \<Rightarrow> val" where
  "unshift_head (VArr (head # VArr tail # rest)) = VArr (head # tail)"
| "unshift_head v = VUndefined"

text \<open>
  \<^verbatim>\<open>combine\<close> reads the whole right sequence with \<^verbatim>\<open>toArray\<close> when it is called, so the
  call itself may not return.
\<close>

function lib_combine :: "'s nextfn \<Rightarrow> 's lgen list \<Rightarrow> 's lgen option" where
  "lib_combine nx [] = Some LDone"
| "lib_combine nx [g] = Some (LMap g wrap)"
| "lib_combine nx [g0, g1] =
     Option.bind (lib_toArray (lgen_next nx) g1) (\<lambda>(allRight, g1').
       Some (LCombine g0 allRight None 0))"
| "lib_combine nx (g0 # g1 # g2 # gs) =
     Option.bind (lib_combine nx (g1 # g2 # gs)) (\<lambda>inner.
       Option.bind (lib_combine nx [g0, inner]) (\<lambda>c. Some (LMap c unshift_head)))"
  by pat_completeness auto
termination
  by (relation "measure (\<lambda>(nx, gs). length gs)") auto

definition lib_combine_toArray :: "'s nextfn \<Rightarrow> 's lgen list \<Rightarrow> val list option" where
  "lib_combine_toArray nx generators =
     map_option fst (Option.bind (lib_combine nx generators) (lib_toArray (lgen_next nx)))"

section \<open>The generators of the newest index.ts: concat and combine\<close>

text \<open>
  \<^verbatim>\<open>combine\<close> iterates a copy of \<^verbatim>\<open>combine\<close> of the remaining sequences, so the \<^verbatim>\<open>next\<close> of a
  generator is passed to \<^verbatim>\<open>copy\<close> while it is being defined.  The definition needs that a
  call on a copy that returns still returns, with the same result, when the underlying
  \<^verbatim>\<open>next\<close> returns in more states.
\<close>

lemma ts_take_loop_grows:
  assumes "\<And>u y. nx1 u = Some y \<Longrightarrow> nx2 u = Some y"
    and "ts_take_loop nx1 s c acc = Some r"
  shows "ts_take_loop nx2 s c acc = Some r"
  using assms(2)
proof (induction "nat c" arbitrary: c s acc)
  case 0
  then show ?case by simp
next
  case (Suc k)
  then have pos: "c > 0" and k: "k = nat (c - 1)" by simp_all
  from Suc.prems pos obtain it s1 where nx: "nx1 s = Some (it, s1)"
    by (cases "nx1 s") auto
  from assms(1)[OF nx] have nx2: "nx2 s = Some (it, s1)" .
  show ?case
  proof (cases "it_done it")
    case True
    with Suc.prems pos nx nx2 show ?thesis by simp
  next
    case False
    with Suc.prems pos nx have "ts_take_loop nx1 s1 (c - 1) (acc @ [it_value it]) = Some r"
      by simp
    from Suc.hyps(1)[OF k this] False pos nx2 show ?thesis by simp
  qed
qed

lemma getIteratorResultAtIndex_grows:
  assumes "getIteratorResultAtIndex nx1 c index = Some r"
    and "\<And>u y. nx1 u = Some y \<Longrightarrow> nx2 u = Some y"
  shows "getIteratorResultAtIndex nx2 c index = Some r"
  using assms
proof (induction nx1 c index r rule: getIteratorResultAtIndex.raw_induct[rotated 1, consumes 1])
  case (1 self nx1 c index r)
  show ?case
  proof (cases "length (copy_values c) \<le> index")
    case False
    with 1(2) show ?thesis by (subst getIteratorResultAtIndex.simps) simp
  next
    case le: True
    show ?thesis
    proof (cases "copy_done c")
      case True
      with 1(2) le have "self nx1 c index = Some r" by simp
      from 1(1)[OF this 1(3)] show ?thesis .
    next
      case False
      with 1(2) le obtain valueArray iterable' where
        tk: "ts_take nx1 (copy_iterable c) 1 = Some (valueArray, iterable')"
        by (cases "ts_take nx1 (copy_iterable c) 1") auto
      then have tk2: "ts_take nx2 (copy_iterable c) 1 = Some (valueArray, iterable')"
        unfolding ts_take_def using ts_take_loop_grows[of nx1 nx2] 1(3) by blast
      from 1(2) le False tk have "self nx1
               (if length valueArray = 0
                then CopyState iterable' (copy_values c @ [js_index valueArray 0]) (copy_indexes c)
                       True (Some (int (length (copy_values c)) - 1))
                else CopyState iterable' (copy_values c @ [js_index valueArray 0]) (copy_indexes c)
                       (copy_done c) (copy_maxIndex c))
               index = Some r"
        by simp
      from 1(1)[OF this 1(3)] le False tk2 show ?thesis
        by (subst getIteratorResultAtIndex.simps) simp
    qed
  qed
qed

lemma copy_next_mono [partial_function_mono]:
  assumes "\<And>u. mono_option (\<lambda>f :: 'p \<Rightarrow> 'q option. nx f u)"
  shows "mono_option (\<lambda>f. copy_next (nx f) c ident)"
proof (rule monotoneI)
  fix f g :: "'p \<Rightarrow> 'q option"
  assume fg: "fun_ord option_ord f g"
  have grow: "nx g u = Some y" if "nx f u = Some y" for u y
  proof -
    from assms[of u] fg have "option_ord (nx f u) (nx g u)"
      unfolding monotone_def by blast
    with that show ?thesis by (auto simp: flat_ord_def)
  qed
  show "option_ord (copy_next (nx f) c ident) (copy_next (nx g) c ident)"
  proof (cases "copy_next (nx f) c ident")
    case None
    then show ?thesis by (simp add: flat_ord_def)
  next
    case (Some r)
    then have "copy_next (nx g) c ident = Some r"
      unfolding copy_next_def Let_def using getIteratorResultAtIndex_grows grow by blast
    with Some show ?thesis by (simp add: flat_ord_def)
  qed
qed

text \<open>\<^verbatim>\<open>[head, ...tail]\<close>, which is only applied to arrays \<^verbatim>\<open>tail\<close>.\<close>

fun spread_cons :: "val \<Rightarrow> val \<Rightarrow> val" where
  "spread_cons head (VArr tail) = VArr (head # tail)"
| "spread_cons head v = VUndefined"

text \<open>
  The generator objects: a generator of the caller with state \<open>'s\<close>; a generator that
  has returned; \<^verbatim>\<open>concat(iterables)\<close> in its loop, with the index of the iterable it is
  delegating to; \<^verbatim>\<open>combine(iterables)\<close> before its first \<^verbatim>\<open>next\<close>, in the loop of \<^verbatim>\<open>case 1\<close>,
  and in the loops of the default case, with the iterator of \<^verbatim>\<open>iterables[0]\<close>, the copy
  \<^verbatim>\<open>tails\<close> and, inside the inner loop, the current \<^verbatim>\<open>head\<close> and the id of the cursor
  over \<^verbatim>\<open>tails\<close>.  The iterables are generator objects.
\<close>

datatype 's tgen =
    TSrc 's
  | TCompleted
  | TConcat "'s tgen list" nat
  | TCombineStart "'s tgen list"
  | TCombineOne "'s tgen"
  | TCombineMany "'s tgen" "'s tgen copy_state" "(val \<times> nat) option"

partial_function (option) tgen_next :: "'s nextfn \<Rightarrow> 's tgen nextfn" where
  "tgen_next nx g =
     (case g of
        TSrc s \<Rightarrow> Option.bind (nx s) (\<lambda>(iteration, s'). Some (iteration, TSrc s'))
      | TCompleted \<Rightarrow> Some (Iteration VUndefined True, TCompleted)
      | TConcat iterables k \<Rightarrow>
          if k \<ge> length iterables then Some (Iteration VUndefined True, TCompleted)
          else Option.bind (tgen_next nx (iterables ! k)) (\<lambda>(iteration, g').
            if it_done iteration then tgen_next nx (TConcat (iterables[k := g']) (k + 1))
            else Some (Iteration (it_value iteration) False, TConcat (iterables[k := g']) k))
      | TCombineStart iterables \<Rightarrow>
          if length iterables = 0 then Some (Iteration VUndefined True, TCompleted)
          else if length iterables = 1 then tgen_next nx (TCombineOne (iterables ! 0))
          else tgen_next nx
                 (TCombineMany (iterables ! 0) (copy (TCombineStart (drop 1 iterables))) None)
      | TCombineOne i0 \<Rightarrow>
          Option.bind (tgen_next nx i0) (\<lambda>(iteration, i0').
            if it_done iteration then Some (Iteration VUndefined True, TCompleted)
            else Some (Iteration (VArr [it_value iteration]) False, TCombineOne i0'))
      | TCombineMany i0 tails cur \<Rightarrow>
          (case cur of
             None \<Rightarrow>
               Option.bind (tgen_next nx i0) (\<lambda>(iteration, i0').
                 if it_done iteration then Some (Iteration VUndefined True, TCompleted)
                 else
                   (case copy_iterator tails of (ident, tails') \<Rightarrow>
                      tgen_next nx (TCombineMany i0' tails' (Some (it_value iteration, ident)))))
           | Some (head, ident) \<Rightarrow>
               Option.bind (copy_next (\<lambda>u. tgen_next nx u) tails ident) (\<lambda>(iteration, tails').
                 if it_done iteration then tgen_next nx (TCombineMany i0 tails' None)
                 else Some (Iteration (spread_cons head (it_value iteration)) False,
                            TCombineMany i0 tails' (Some (head, ident))))))"

declare tgen_next.simps [code]

definition ts_concat :: "'s tgen list \<Rightarrow> 's tgen" where
  "ts_concat iterables = TConcat iterables 0"

definition ts_combine :: "'s tgen list \<Rightarrow> 's tgen" where
  "ts_combine iterables = TCombineStart iterables"

definition ts_combine_toArray :: "'s nextfn \<Rightarrow> 's tgen list \<Rightarrow> val list option" where
  "ts_combine_toArray nx iterables =
     map_option fst (ts_toArray (tgen_next nx) (ts_combine iterables))"

section \<open>Infinite sequences\<close>

text \<open>
  \<^verbatim>\<open>naturalNumbers()\<close> of the test suites, as an object in the older one and as a generator
  in the newer one: it yields its counter and is never done.  In general an infinite
  sequence is a function \<open>step\<close> from a state to the next value and the next state;
  \<open>values_from\<close> are its first values and \<open>state_after\<close> its state after them.
\<close>

definition naturalNumbers_next :: "int nextfn" where
  "naturalNumbers_next v = Some (Iteration (VNum v) False, v + 1)"

definition infinite_next :: "('s \<Rightarrow> val \<times> 's) \<Rightarrow> 's nextfn" where
  "infinite_next step s = (case step s of (v, s') \<Rightarrow> Some (Iteration v False, s'))"

fun values_from :: "('s \<Rightarrow> val \<times> 's) \<Rightarrow> 's \<Rightarrow> nat \<Rightarrow> val list" where
  "values_from step s 0 = []"
| "values_from step s (Suc k) = fst (step s) # values_from step (snd (step s)) k"

fun state_after :: "('s \<Rightarrow> val \<times> 's) \<Rightarrow> 's \<Rightarrow> nat \<Rightarrow> 's" where
  "state_after step s 0 = s"
| "state_after step s (Suc k) = state_after step (snd (step s)) k"

text \<open>
  The state of \<^verbatim>\<open>combine([a, b])\<close> of two infinite sequences after \<open>j\<close> tuples: the head is
  the first value of \<open>a\<close>, the copy has cached \<open>j\<close> singleton tuples of \<open>b\<close>, and its only
  cursor is at \<open>j\<close>.
\<close>

definition combine_state ::
  "('s \<Rightarrow> val \<times> 's) \<Rightarrow> 's \<Rightarrow> 's \<Rightarrow> nat \<Rightarrow> 's tgen" where
  "combine_state step a b j =
     TCombineMany (TSrc (snd (step a)))
       (CopyState (TCombineOne (TSrc (state_after step b j)))
          (map (\<lambda>w. VArr [w]) (values_from step b j)) [j] False None)
       (Some (fst (step a), 0))"

section \<open>combine of src/index.ts\<close>

text \<open>
  In src/index.ts \<^verbatim>\<open>combine\<close> of two or more generators reads \<^verbatim>\<open>Array.from(head)\<close> and
  \<^verbatim>\<open>Array.from(combine(tail))\<close> at its first \<^verbatim>\<open>next\<close> and then loops over the two arrays.
  \<^verbatim>\<open>Array.from\<close> is applied to a generator whose \<^verbatim>\<open>next\<close> is being defined, which needs the
  monotonicity below.
\<close>

lemma ts_toArray_loop_grows:
  assumes "ts_toArray_loop nx1 s acc = Some r"
    and "\<And>u y. nx1 u = Some y \<Longrightarrow> nx2 u = Some y"
  shows "ts_toArray_loop nx2 s acc = Some r"
  using assms
proof (induction nx1 s acc r rule: ts_toArray_loop.raw_induct[rotated 1, consumes 1])
  case (1 self nx1 s acc r)
  from 1(2) obtain it s' where nx: "nx1 s = Some (it, s')"
    by (cases "nx1 s") auto
  from 1(3)[OF nx] have nx2: "nx2 s = Some (it, s')" .
  show ?case
  proof (cases "it_done it")
    case True
    with 1(2) nx nx2 show ?thesis by (subst ts_toArray_loop.simps) simp
  next
    case False
    with 1(2) nx have "self nx1 s' (acc @ [it_value it]) = Some r" by simp
    from 1(1)[OF this 1(3)] False nx2 show ?thesis
      by (subst ts_toArray_loop.simps) simp
  qed
qed

lemma ts_toArray_mono [partial_function_mono]:
  assumes "\<And>u. mono_option (\<lambda>f :: 'p \<Rightarrow> 'q option. nx f u)"
  shows "mono_option (\<lambda>f. ts_toArray (nx f) s)"
proof (rule monotoneI)
  fix f g :: "'p \<Rightarrow> 'q option"
  assume fg: "fun_ord option_ord f g"
  have grow: "nx g u = Some y" if "nx f u = Some y" for u y
  proof -
    from assms[of u] fg have "option_ord (nx f u) (nx g u)"
      unfolding monotone_def by blast
    with that show ?thesis by (auto simp: flat_ord_def)
  qed
  show "option_ord (ts_toArray (nx f) s) (ts_toArray (nx g) s)"
  proof (cases "ts_toArray (nx f) s")
    case None
    then show ?thesis by (simp add: flat_ord_def)
  next
    case (Some r)
    then have "ts_toArray_loop (nx f) s [] = Some r"
      by (simp add: ts_toArray_def)
    then have "ts_toArray_loop (nx g) s [] = Some r"
      by (rule ts_toArray_loop_grows) (rule grow)
    then have "ts_toArray (nx g) s = Some r"
      by (simp add: ts_toArray_def)
    with Some show ?thesis by (simp add: flat_ord_def)
  qed
qed

text \<open>
  The generator objects: a generator of the caller; a generator that has returned;
  \<^verbatim>\<open>combine(generators)\<close> before its first \<^verbatim>\<open>next\<close>, in the loop of \<^verbatim>\<open>case 1\<close>, and in the
  loops of the default case with \<^verbatim>\<open>headValues\<close>, \<^verbatim>\<open>tailCombinations\<close> and the positions of
  the two array iterators.
\<close>

datatype 's agen =
    ASrc 's
  | ACompleted
  | ACombineStart "'s agen list"
  | ACombineOne "'s agen"
  | ACombineMany "val list" "val list" nat nat

partial_function (option) agen_next :: "'s nextfn \<Rightarrow> 's agen nextfn" where
  "agen_next nx g =
     (case g of
        ASrc s \<Rightarrow> Option.bind (nx s) (\<lambda>(iteration, s'). Some (iteration, ASrc s'))
      | ACompleted \<Rightarrow> Some (Iteration VUndefined True, ACompleted)
      | ACombineStart generators \<Rightarrow>
          if length generators = 0 then Some (Iteration VUndefined True, ACompleted)
          else if length generators = 1 then agen_next nx (ACombineOne (generators ! 0))
          else
            Option.bind (ts_toArray (\<lambda>u. agen_next nx u) (generators ! 0))
              (\<lambda>(headValues, head').
                 Option.bind
                   (ts_toArray (\<lambda>u. agen_next nx u) (ACombineStart (drop 1 generators)))
                   (\<lambda>(tailCombinations, tail').
                      agen_next nx (ACombineMany headValues tailCombinations 0 0)))
      | ACombineOne g0 \<Rightarrow>
          Option.bind (agen_next nx g0) (\<lambda>(iteration, g0').
            if it_done iteration then Some (Iteration VUndefined True, ACompleted)
            else Some (Iteration (VArr [it_value iteration]) False, ACombineOne g0'))
      | ACombineMany headValues tailCombinations i j \<Rightarrow>
          if i \<ge> length headValues then Some (Iteration VUndefined True, ACompleted)
          else if j < length tailCombinations
          then Some (Iteration (spread_cons (headValues ! i) (tailCombinations ! j)) False,
                     ACombineMany headValues tailCombinations i (j + 1))
          else agen_next nx (ACombineMany headValues tailCombinations (i + 1) 0))"

declare agen_next.simps [code]

definition ts_combine_array :: "'s agen list \<Rightarrow> 's agen" where
  "ts_combine_array generators = ACombineStart generators"

section \<open>The cross product\<close>

text \<open>
  What \<^verbatim>\<open>combine\<close> is specified to yield for sequences with the values \<open>xss\<close>: nothing for no
  sequence, singleton tuples for one, and otherwise the tuples of nested loops with the
  first sequence outermost, so that the last position varies fastest.
\<close>

fun spec_combine :: "val list list \<Rightarrow> val list list" where
  "spec_combine [] = []"
| "spec_combine [xs] = map (\<lambda>x. [x]) xs"
| "spec_combine (xs # ys # yss) =
     concat (map (\<lambda>x. map (\<lambda>t. x # t) (spec_combine (ys # yss))) xs)"


section \<open>Verification\<close>

subsection \<open>range\<close>

lemma js_increment_exact:
  "- (2 ^ 53) \<le> i \<Longrightarrow> i < 2 ^ 53 \<Longrightarrow> js_increment i = i + 1"
  by (simp add: js_increment_def)

lemma lib_forEach_range:
  assumes "mx < i \<or> (- (2 ^ 53) \<le> i \<and> mx < 2 ^ 53)"
  shows "lib_forEach lib_range_next f (RangeState i mx) c =
     Some (foldl (\<lambda>c v. f v c) c (map VNum [i..mx]), RangeState (max i (mx + 1)) mx)"
  using assms
proof (induction "nat (mx + 1 - i)" arbitrary: i c)
  case 0
  then have "mx < i" by simp
  then show ?case
    by (subst lib_forEach.simps) (simp add: lib_range_next_def)
next
  case (Suc k)
  then have le: "i \<le> mx" and k: "k = nat (mx + 1 - (i + 1))" by simp_all
  with Suc.prems have b: "- (2 ^ 53) \<le> i" "i < 2 ^ 53" "mx < 2 ^ 53" by simp_all
  have inc: "js_increment i = i + 1" using b(1,2) by (rule js_increment_exact)
  have up: "[i..mx] = i # [i + 1..mx]" using le by (simp add: upto_rec1)
  have nxt: "mx < i + 1 \<or> (- (2 ^ 53) \<le> i + 1 \<and> mx < 2 ^ 53)" using b by simp
  have mx: "max (i + 1) (mx + 1) = max i (mx + 1)" using le by simp
  show ?case
    by (subst lib_forEach.simps) (simp add: lib_range_next_def le up inc Suc.hyps(1)[OF k nxt] mx)
qed

lemma ts_toArray_loop_range:
  assumes "mx < i \<or> (- (2 ^ 53) \<le> i \<and> mx < 2 ^ 53)"
  shows "ts_toArray_loop ts_range_next (RangeState i mx) acc =
     Some (acc @ map VNum [i..mx], RangeState (max i (mx + 1)) mx)"
  using assms
proof (induction "nat (mx + 1 - i)" arbitrary: i acc)
  case 0
  then have "mx < i" by simp
  then show ?case
    by (subst ts_toArray_loop.simps) (simp add: ts_range_next_def)
next
  case (Suc k)
  then have le: "i \<le> mx" and k: "k = nat (mx + 1 - (i + 1))" by simp_all
  with Suc.prems have b: "- (2 ^ 53) \<le> i" "i < 2 ^ 53" "mx < 2 ^ 53" by simp_all
  have inc: "js_increment i = i + 1" using b(1,2) by (rule js_increment_exact)
  have up: "[i..mx] = i # [i + 1..mx]" using le by (simp add: upto_rec1)
  have nxt: "mx < i + 1 \<or> (- (2 ^ 53) \<le> i + 1 \<and> mx < 2 ^ 53)" using b by simp
  have mx: "max (i + 1) (mx + 1) = max i (mx + 1)" using le by simp
  show ?case
    by (subst ts_toArray_loop.simps) (simp add: ts_range_next_def le up inc Suc.hyps(1)[OF k nxt] mx)
qed

lemma foldl_snoc: "foldl (\<lambda>c v. c @ [v]) acc xs = acc @ xs"
  by (induction xs arbitrary: acc) simp_all

text \<open>A sequence that yields a value and stays in its state is never read to its end.\<close>

lemma lib_forEach_stuck:
  assumes "nx s = Some (Iteration v False, s)"
  shows "lib_forEach nx f s c = None"
proof -
  have "nx s \<noteq> Some (Iteration v False, s)" if "lib_forEach nx f s c = Some r" for r
    using that
  proof (induction nx f s c r rule: lib_forEach.raw_induct[rotated 1, consumes 1])
    case (1 self nx f s c r)
    show ?case
    proof
      assume st: "nx s = Some (Iteration v False, s)"
      with 1(2) have "self nx f s (f v c) = Some r" by simp
      from 1(1)[OF this] st show False by simp
    qed
  qed
  with assms show ?thesis by (cases "lib_forEach nx f s c") auto
qed

lemma ts_toArray_loop_stuck:
  assumes "nx s = Some (Iteration v False, s)"
  shows "ts_toArray_loop nx s acc = None"
proof -
  have "nx s \<noteq> Some (Iteration v False, s)" if "ts_toArray_loop nx s acc = Some r" for r
    using that
  proof (induction nx s acc r rule: ts_toArray_loop.raw_induct[rotated 1, consumes 1])
    case (1 self nx s acc r)
    show ?case
    proof
      assume st: "nx s = Some (Iteration v False, s)"
      with 1(2) have "self nx s (acc @ [v]) = Some r" by simp
      from 1(1)[OF this] st show False by simp
    qed
  qed
  with assms show ?thesis by (cases "ts_toArray_loop nx s acc") auto
qed

text \<open>
  C9, as amended.  Let \<open>min\<close> and \<open>max\<close> be integers with \<open>min > max\<close>, or with
  \<open>- 2 ^ 53 \<le> min\<close> and \<open>max < 2 ^ 53\<close> (every safe integer is in this range).  Then
  \<^verbatim>\<open>range(min, max)\<close> yields the integers from \<open>min\<close> to \<open>max\<close> in ascending order and nothing
  else, in both libraries; these are \<open>max - min + 1\<close> values when \<open>min \<le> max\<close> and none when
  \<open>min > max\<close> (the conversion \<open>nat\<close> maps a negative number to zero).  Reading the whole
  sequence returns: no case of these arguments is an error.
\<close>

theorem range_yields_closed_interval:
  assumes "mx < mn \<or> (- (2 ^ 53) \<le> mn \<and> mx < 2 ^ 53)"
  shows "lib_toArray lib_range_next (lib_range mn mx) =
     Some (map VNum [mn..mx], RangeState (max mn (mx + 1)) mx)
   \<and> ts_toArray ts_range_next (ts_range mn mx) =
     Some (map VNum [mn..mx], RangeState (max mn (mx + 1)) mx)
   \<and> length (map VNum [mn..mx]) = nat (mx - mn + 1)"
  using assms
  by (simp add: lib_toArray_def lib_range_def lib_forEach_range foldl_snoc
      ts_toArray_def ts_range_def ts_toArray_loop_range)

theorem range_yields_closed_interval_witness:
  "(3 < (0::int) \<or> (- (2 ^ 53) \<le> (0::int) \<and> (3::int) < 2 ^ 53))
   \<and> lib_toArray lib_range_next (lib_range 0 3)
       = Some ([VNum 0, VNum 1, VNum 2, VNum 3], RangeState 4 3)
   \<and> ts_toArray ts_range_next (ts_range 0 3)
       = Some ([VNum 0, VNum 1, VNum 2, VNum 3], RangeState 4 3)
   \<and> ((- 1 < (0::int)) \<or> (- (2 ^ 53) \<le> (0::int) \<and> (- 1::int) < 2 ^ 53))
   \<and> lib_toArray lib_range_next (lib_range 0 (- 1)) = Some ([], RangeState 0 (- 1))
   \<and> ts_toArray ts_range_next (ts_range 0 (- 1)) = Some ([], RangeState 0 (- 1))"
proof -
  have a: "3 < (0::int) \<or> (- (2 ^ 53) \<le> (0::int) \<and> (3::int) < 2 ^ 53)" by simp
  have b: "(- 1 < (0::int)) \<or> (- (2 ^ 53) \<le> (0::int) \<and> (- 1::int) < 2 ^ 53)" by simp
  have u: "[0..3] = [0, 1, 2, 3::int]" by (simp add: upto_rec1)
  from range_yields_closed_interval[OF a] range_yields_closed_interval[OF b] a b u
  show ?thesis by simp
qed

text \<open>
  C9 as stated fails beyond \<open>2 ^ 53 = 9007199254740992\<close>.  The claim gives
  \<^verbatim>\<open>range(9007199254740992, 9007199254740994)\<close> three values.  In both libraries \<^verbatim>\<open>i++\<close> leaves
  \<^verbatim>\<open>i\<close> at \<open>2 ^ 53\<close>: the first four values are all \<open>2 ^ 53\<close>, the state after them is the state
  before them, and reading the whole sequence does not end.
\<close>

theorem range_at_2_to_53_repeats_its_first_value:
  "lib_take lib_range_next (lib_range 9007199254740992 9007199254740994) 4
     = Some ([VNum 9007199254740992, VNum 9007199254740992,
              VNum 9007199254740992, VNum 9007199254740992],
             lib_range 9007199254740992 9007199254740994)
   \<and> ts_take ts_range_next (ts_range 9007199254740992 9007199254740994) 4
     = Some ([VNum 9007199254740992, VNum 9007199254740992,
              VNum 9007199254740992, VNum 9007199254740992],
             ts_range 9007199254740992 9007199254740994)
   \<and> lib_toArray lib_range_next (lib_range 9007199254740992 9007199254740994) = None
   \<and> ts_toArray ts_range_next (ts_range 9007199254740992 9007199254740994) = None"
proof -
  have l: "lib_range_next (RangeState 9007199254740992 9007199254740994)
      = Some (Iteration (VNum 9007199254740992) False,
              RangeState 9007199254740992 9007199254740994)"
    by (simp add: lib_range_next_def js_increment_def)
  have t: "ts_range_next (RangeState 9007199254740992 9007199254740994)
      = Some (Iteration (VNum 9007199254740992) False,
              RangeState 9007199254740992 9007199254740994)"
    by (simp add: ts_range_next_def js_increment_def)
  show ?thesis
    using l t
      lib_forEach_stuck[of lib_range_next "RangeState 9007199254740992 9007199254740994",
        OF l, of "\<lambda>v results. results @ [v]" "[]"]
      ts_toArray_loop_stuck[of ts_range_next "RangeState 9007199254740992 9007199254740994",
        OF t, of "[]"]
    by (simp add: lib_take_def ts_take_def lib_range_def ts_range_def lib_toArray_def
        ts_toArray_def)
qed

subsection \<open>take\<close>

lemma lib_take_loop_counted:
  "lib_take_loop (counted nx) (s, n) c acc = Some (r, (s', n')) \<Longrightarrow>
   \<exists>its. pulls nx s its = Some s' \<and> n' = n + length its \<and> int (length its) \<le> max c 0
     \<and> (\<forall>it \<in> set (butlast its). \<not> it_done it)
     \<and> (int (length its) < c \<longrightarrow> its \<noteq> [] \<and> it_done (last its))
     \<and> r = acc @ map it_value (filter (\<lambda>it. \<not> it_done it) its)"
proof (induction "nat c" arbitrary: c s n acc)
  case 0
  then have "c \<le> 0" by simp
  with 0 show ?case
    by (intro exI[of _ "[]"]) simp
next
  case (Suc k)
  then have pos: "c > 0" and k: "k = nat (c - 1)" by simp_all
  from Suc.prems pos obtain it s1 where nx: "nx s = Some (it, s1)"
    by (cases "nx s") (auto simp: counted_def)
  show ?case
  proof (cases "it_done it")
    case True
    with Suc.prems pos nx have "r = acc" "s' = s1" "n' = Suc n"
      by (simp_all add: counted_def)
    with True nx pos show ?thesis
      by (intro exI[of _ "[it]"]) simp
  next
    case False
    with Suc.prems pos nx have
      "lib_take_loop (counted nx) (s1, Suc n) (c - 1) (acc @ [it_value it]) = Some (r, (s', n'))"
      by (simp add: counted_def)
    from Suc.hyps(1)[OF k this] obtain its where
      its: "pulls nx s1 its = Some s'" "n' = Suc n + length its" "int (length its) \<le> max (c - 1) 0"
        "\<forall>it \<in> set (butlast its). \<not> it_done it"
        "int (length its) < c - 1 \<longrightarrow> its \<noteq> [] \<and> it_done (last its)"
        "r = (acc @ [it_value it]) @ map it_value (filter (\<lambda>it. \<not> it_done it) its)"
      by blast
    show ?thesis
      using its False nx pos
      by (intro exI[of _ "it # its"]) (auto dest: in_set_butlastD)
  qed
qed

lemma ts_take_loop_counted:
  "ts_take_loop (counted nx) (s, n) c acc = Some (r, (s', n')) \<Longrightarrow>
   \<exists>its. pulls nx s its = Some s' \<and> n' = n + length its \<and> int (length its) \<le> max c 0
     \<and> (\<forall>it \<in> set (butlast its). \<not> it_done it)
     \<and> (int (length its) < c \<longrightarrow> its \<noteq> [] \<and> it_done (last its))
     \<and> r = acc @ map it_value (filter (\<lambda>it. \<not> it_done it \<or> it_value it \<noteq> VUndefined) its)"
proof (induction "nat c" arbitrary: c s n acc)
  case 0
  then have "c \<le> 0" by simp
  with 0 show ?case
    by (intro exI[of _ "[]"]) simp
next
  case (Suc k)
  then have pos: "c > 0" and k: "k = nat (c - 1)" by simp_all
  from Suc.prems pos obtain it s1 where nx: "nx s = Some (it, s1)"
    by (cases "nx s") (auto simp: counted_def)
  show ?case
  proof (cases "it_done it")
    case True
    with Suc.prems pos nx have
      "r = acc @ (if it_value it \<noteq> VUndefined then [it_value it] else [])" "s' = s1" "n' = Suc n"
      by (simp_all add: counted_def split: if_splits)
    with True nx pos show ?thesis
      by (intro exI[of _ "[it]"]) simp
  next
    case False
    with Suc.prems pos nx have
      "ts_take_loop (counted nx) (s1, Suc n) (c - 1) (acc @ [it_value it]) = Some (r, (s', n'))"
      by (simp add: counted_def)
    from Suc.hyps(1)[OF k this] obtain its where
      its: "pulls nx s1 its = Some s'" "n' = Suc n + length its" "int (length its) \<le> max (c - 1) 0"
        "\<forall>it \<in> set (butlast its). \<not> it_done it"
        "int (length its) < c - 1 \<longrightarrow> its \<noteq> [] \<and> it_done (last its)"
        "r = (acc @ [it_value it]) @
           map it_value (filter (\<lambda>it. \<not> it_done it \<or> it_value it \<noteq> VUndefined) its)"
      by blast
    show ?thesis
      using its False nx pos
      by (intro exI[of _ "it # its"]) (auto dest: in_set_butlastD)
  qed
qed

lemma lib_take_loop_spy:
  "map_option (\<lambda>(r, (s', n')). (r, s')) (lib_take_loop (counted nx) (s, n) c acc)
     = lib_take_loop nx s c acc"
proof (induction "nat c" arbitrary: c s n acc)
  case 0
  then show ?case by simp
next
  case (Suc k)
  then have pos: "c > 0" and k: "k = nat (c - 1)" by simp_all
  show ?case
  proof (cases "nx s")
    case None
    with pos show ?thesis by (simp add: counted_def)
  next
    case (Some p)
    obtain it s1 where p: "p = (it, s1)" by (cases p)
    show ?thesis
      using Some p pos Suc.hyps(1)[OF k, of s1 "Suc n" "acc @ [it_value it]"]
      by (simp add: counted_def)
  qed
qed

lemma ts_take_loop_spy:
  "map_option (\<lambda>(r, (s', n')). (r, s')) (ts_take_loop (counted nx) (s, n) c acc)
     = ts_take_loop nx s c acc"
proof (induction "nat c" arbitrary: c s n acc)
  case 0
  then show ?case by simp
next
  case (Suc k)
  then have pos: "c > 0" and k: "k = nat (c - 1)" by simp_all
  show ?case
  proof (cases "nx s")
    case None
    with pos show ?thesis by (simp add: counted_def)
  next
    case (Some p)
    obtain it s1 where p: "p = (it, s1)" by (cases p)
    show ?thesis
      using Some p pos Suc.hyps(1)[OF k, of s1 "Suc n" "acc @ [it_value it]"]
      by (simp add: counted_def)
  qed
qed

lemma lib_take_loop_total:
  "\<forall>s. nx s \<noteq> None \<Longrightarrow> lib_take_loop nx s c acc \<noteq> None"
proof (induction "nat c" arbitrary: c s acc)
  case 0
  then show ?case by simp
next
  case (Suc k)
  then have pos: "c > 0" and k: "k = nat (c - 1)" by simp_all
  from Suc.prems obtain it s1 where nx: "nx s = Some (it, s1)" by (cases "nx s") fastforce+
  show ?case
    using nx pos Suc.hyps(1)[OF k Suc.prems, of s1 "acc @ [it_value it]"] by simp
qed

lemma ts_take_loop_total:
  "\<forall>s. nx s \<noteq> None \<Longrightarrow> ts_take_loop nx s c acc \<noteq> None"
proof (induction "nat c" arbitrary: c s acc)
  case 0
  then show ?case by simp
next
  case (Suc k)
  then have pos: "c > 0" and k: "k = nat (c - 1)" by simp_all
  from Suc.prems obtain it s1 where nx: "nx s = Some (it, s1)" by (cases "nx s") fastforce+
  show ?case
    using nx pos Suc.hyps(1)[OF k Suc.prems, of s1 "acc @ [it_value it]"] by simp
qed


lemma filter_done_value_last:
  assumes "\<forall>it \<in> set (butlast its). \<not> it_done it"
  shows "map it_value (filter (\<lambda>it. \<not> it_done it \<or> it_value it \<noteq> VUndefined) its)
    = map it_value (filter (\<lambda>it. \<not> it_done it) its)
      @ (if its \<noteq> [] \<and> it_done (last its) \<and> it_value (last its) \<noteq> VUndefined
         then [it_value (last its)] else [])"
proof (cases its rule: rev_cases)
  case Nil
  then show ?thesis by simp
next
  case (snoc ys y)
  with assms have "\<forall>it \<in> set ys. \<not> it_done it" by simp
  then have "filter (\<lambda>it. \<not> it_done it \<or> it_value it \<noteq> VUndefined) ys = ys"
    and "filter (\<lambda>it. \<not> it_done it) ys = ys"
    by (simp_all add: filter_id_conv)
  with snoc show ?thesis by simp
qed

lemma lib_take_counted_ex:
  assumes "lib_take nx s c = Some (r, s')"
  shows "\<exists>n'. lib_take_loop (counted nx) (s, 0) c [] = Some (r, (s', n'))"
proof -
  from assms lib_take_loop_spy[of nx s 0 c "[]"]
  have "map_option (\<lambda>(r, (s', n')). (r, s')) (lib_take_loop (counted nx) (s, 0) c []) = Some (r, s')"
    by (simp add: lib_take_def)
  then show ?thesis by auto
qed

lemma ts_take_counted_ex:
  assumes "ts_take nx s c = Some (r, s')"
  shows "\<exists>n'. ts_take_loop (counted nx) (s, 0) c [] = Some (r, (s', n'))"
proof -
  from assms ts_take_loop_spy[of nx s 0 c "[]"]
  have "map_option (\<lambda>(r, (s', n')). (r, s')) (ts_take_loop (counted nx) (s, 0) c []) = Some (r, s')"
    by (simp add: ts_take_def)
  then show ?thesis by auto
qed

text \<open>
  C7, as amended.  \<^verbatim>\<open>take\<close> of lib/index.js returns exactly the values of the iterations
  that were not done.  \<^verbatim>\<open>take\<close> of the TypeScript sources returns these values and,
  after them, the value that came with the done signal when that value is not
  \<^verbatim>\<open>undefined\<close>; no other value of a done iteration is pushed, since the done iteration is
  the last one pulled.
\<close>

theorem take_pushes_only_undone_values:
  "(lib_take nx s c = Some (r, s') \<longrightarrow>
      (\<exists>its. pulls nx s its = Some s'
         \<and> r = map it_value (filter (\<lambda>it. \<not> it_done it) its)))
   \<and> (ts_take nx s c = Some (r, s') \<longrightarrow>
      (\<exists>its. pulls nx s its = Some s'
         \<and> (\<forall>it \<in> set (butlast its). \<not> it_done it)
         \<and> r = map it_value (filter (\<lambda>it. \<not> it_done it) its)
               @ (if its \<noteq> [] \<and> it_done (last its) \<and> it_value (last its) \<noteq> VUndefined
                  then [it_value (last its)] else [])))"
proof (intro conjI impI)
  assume a: "lib_take nx s c = Some (r, s')"
  from lib_take_counted_ex[OF a]
  obtain n' where "lib_take_loop (counted nx) (s, 0) c [] = Some (r, (s', n'))" ..
  from lib_take_loop_counted[OF this]
  show "\<exists>its. pulls nx s its = Some s' \<and> r = map it_value (filter (\<lambda>it. \<not> it_done it) its)"
    by auto
next
  assume a: "ts_take nx s c = Some (r, s')"
  from ts_take_counted_ex[OF a]
  obtain n' where "ts_take_loop (counted nx) (s, 0) c [] = Some (r, (s', n'))" ..
  from ts_take_loop_counted[OF this] obtain its where
    its: "pulls nx s its = Some s'" "\<forall>it \<in> set (butlast its). \<not> it_done it"
      "r = map it_value (filter (\<lambda>it. \<not> it_done it \<or> it_value it \<noteq> VUndefined) its)"
    by auto
  show "\<exists>its. pulls nx s its = Some s'
         \<and> (\<forall>it \<in> set (butlast its). \<not> it_done it)
         \<and> r = map it_value (filter (\<lambda>it. \<not> it_done it) its)
               @ (if its \<noteq> [] \<and> it_done (last its) \<and> it_value (last its) \<noteq> VUndefined
                  then [it_value (last its)] else [])"
    using its filter_done_value_last[OF its(2)] by (intro exI[of _ its]) simp
qed

theorem take_pushes_only_undone_values_witness:
  "lib_take lib_range_next (lib_range 0 1) 5 = Some ([VNum 0, VNum 1], RangeState 2 1)
   \<and> ts_take ts_range_next (ts_range 0 1) 5 = Some ([VNum 0, VNum 1], RangeState 2 1)
   \<and> (\<exists>its. pulls lib_range_next (lib_range 0 1) its = Some (RangeState 2 1)
         \<and> [VNum 0, VNum 1] = map it_value (filter (\<lambda>it. \<not> it_done it) its))
   \<and> (\<exists>its. pulls ts_range_next (ts_range 0 1) its = Some (RangeState 2 1)
         \<and> (\<forall>it \<in> set (butlast its). \<not> it_done it)
         \<and> [VNum 0, VNum 1] = map it_value (filter (\<lambda>it. \<not> it_done it) its)
               @ (if its \<noteq> [] \<and> it_done (last its) \<and> it_value (last its) \<noteq> VUndefined
                  then [it_value (last its)] else []))"
proof -
  have l: "lib_take lib_range_next (lib_range 0 1) 5 = Some ([VNum 0, VNum 1], RangeState 2 1)"
    by (simp add: lib_take_def lib_range_def lib_range_next_def js_increment_def)
  have t: "ts_take ts_range_next (ts_range 0 1) 5 = Some ([VNum 0, VNum 1], RangeState 2 1)"
    by (simp add: ts_take_def ts_range_def ts_range_next_def js_increment_def)
  from take_pushes_only_undone_values[of lib_range_next "lib_range 0 1" 5
      "[VNum 0, VNum 1]" "RangeState 2 1"] l
  have a: "\<exists>its. pulls lib_range_next (lib_range 0 1) its = Some (RangeState 2 1)
         \<and> [VNum 0, VNum 1] = map it_value (filter (\<lambda>it. \<not> it_done it) its)"
    by blast
  from take_pushes_only_undone_values[of ts_range_next "ts_range 0 1" 5
      "[VNum 0, VNum 1]" "RangeState 2 1"] t
  have b: "\<exists>its. pulls ts_range_next (ts_range 0 1) its = Some (RangeState 2 1)
         \<and> (\<forall>it \<in> set (butlast its). \<not> it_done it)
         \<and> [VNum 0, VNum 1] = map it_value (filter (\<lambda>it. \<not> it_done it) its)
               @ (if its \<noteq> [] \<and> it_done (last its) \<and> it_value (last its) \<noteq> VUndefined
                  then [it_value (last its)] else [])"
    by blast
  from l t a b show ?thesis by blast
qed

text \<open>
  C7 as stated fails for the TypeScript \<^verbatim>\<open>take\<close>: the only iteration pulled from the
  generator of \<^verbatim>\<open>function* () { return 5; }\<close> is done, and its value is in the result.
\<close>

theorem ts_take_pushes_value_of_done_iteration:
  "ts_return_next (VNum 5) False = Some (Iteration (VNum 5) True, True)
   \<and> ts_take (ts_return_next (VNum 5)) False 1 = Some ([VNum 5], True)"
  by (simp add: ts_take_def ts_return_next_def)

text \<open>
  C8, as amended.  Both versions of \<^verbatim>\<open>take\<close> return whenever every call of \<^verbatim>\<open>next\<close> returns,
  also on an infinite sequence.  With a count of zero or less the result is empty and the
  sequence, with its call counter, is untouched.  In general the calls of \<^verbatim>\<open>next\<close> made are
  the list \<open>its\<close>: the counter grows by its length, which is at most \<open>max c 0\<close>; no
  iteration before the last is done, and when fewer than \<open>c\<close> calls were made the last one
  was done.  \<^verbatim>\<open>take\<close> of lib/index.js returns the values of the iterations that were not
  done, in order.  \<^verbatim>\<open>take\<close> of the TypeScript sources returns these values in order,
  followed by the value that came with the done signal when that value is not \<^verbatim>\<open>undefined\<close>.
\<close>

theorem take_calls_next_at_most_count:
  "((\<forall>s. nx s \<noteq> None) \<longrightarrow> lib_take nx s c \<noteq> None \<and> ts_take nx s c \<noteq> None)
   \<and> (c \<le> 0 \<longrightarrow> lib_take (counted nx) (s, n) c = Some ([], (s, n))
                \<and> ts_take (counted nx) (s, n) c = Some ([], (s, n)))
   \<and> (lib_take (counted nx) (s, n) c = Some (r, (s', n')) \<longrightarrow>
        (\<exists>its. pulls nx s its = Some s' \<and> n' = n + length its
           \<and> int (length its) \<le> max c 0
           \<and> (\<forall>it \<in> set (butlast its). \<not> it_done it)
           \<and> (int (length its) < c \<longrightarrow> its \<noteq> [] \<and> it_done (last its))
           \<and> r = map it_value (filter (\<lambda>it. \<not> it_done it) its)))
   \<and> (ts_take (counted nx) (s, n) c = Some (r, (s', n')) \<longrightarrow>
        (\<exists>its. pulls nx s its = Some s' \<and> n' = n + length its
           \<and> int (length its) \<le> max c 0
           \<and> (\<forall>it \<in> set (butlast its). \<not> it_done it)
           \<and> (int (length its) < c \<longrightarrow> its \<noteq> [] \<and> it_done (last its))
           \<and> r = map it_value (filter (\<lambda>it. \<not> it_done it) its)
                 @ (if its \<noteq> [] \<and> it_done (last its) \<and> it_value (last its) \<noteq> VUndefined
                    then [it_value (last its)] else [])))"
proof (intro conjI impI)
  assume total: "\<forall>s. nx s \<noteq> None"
  show "lib_take nx s c \<noteq> None"
    unfolding lib_take_def by (rule lib_take_loop_total[OF total])
  show "ts_take nx s c \<noteq> None"
    unfolding ts_take_def by (rule ts_take_loop_total[OF total])
next
  assume "c \<le> 0"
  then show "lib_take (counted nx) (s, n) c = Some ([], (s, n))"
    "ts_take (counted nx) (s, n) c = Some ([], (s, n))"
    by (simp_all add: lib_take_def ts_take_def)
next
  assume "lib_take (counted nx) (s, n) c = Some (r, (s', n'))"
  then have "lib_take_loop (counted nx) (s, n) c [] = Some (r, (s', n'))"
    by (simp add: lib_take_def)
  from lib_take_loop_counted[OF this]
  show "\<exists>its. pulls nx s its = Some s' \<and> n' = n + length its
           \<and> int (length its) \<le> max c 0
           \<and> (\<forall>it \<in> set (butlast its). \<not> it_done it)
           \<and> (int (length its) < c \<longrightarrow> its \<noteq> [] \<and> it_done (last its))
           \<and> r = map it_value (filter (\<lambda>it. \<not> it_done it) its)"
    by simp
next
  assume "ts_take (counted nx) (s, n) c = Some (r, (s', n'))"
  then have "ts_take_loop (counted nx) (s, n) c [] = Some (r, (s', n'))"
    by (simp add: ts_take_def)
  from ts_take_loop_counted[OF this] obtain its where
    its: "pulls nx s its = Some s'" "n' = n + length its" "int (length its) \<le> max c 0"
      "\<forall>it \<in> set (butlast its). \<not> it_done it"
      "int (length its) < c \<longrightarrow> its \<noteq> [] \<and> it_done (last its)"
      "r = map it_value (filter (\<lambda>it. \<not> it_done it \<or> it_value it \<noteq> VUndefined) its)"
    by auto
  have "r = map it_value (filter (\<lambda>it. \<not> it_done it) its)
                 @ (if its \<noteq> [] \<and> it_done (last its) \<and> it_value (last its) \<noteq> VUndefined
                    then [it_value (last its)] else [])"
    using its(6) filter_done_value_last[OF its(4)] by simp
  with its show "\<exists>its. pulls nx s its = Some s' \<and> n' = n + length its
           \<and> int (length its) \<le> max c 0
           \<and> (\<forall>it \<in> set (butlast its). \<not> it_done it)
           \<and> (int (length its) < c \<longrightarrow> its \<noteq> [] \<and> it_done (last its))
           \<and> r = map it_value (filter (\<lambda>it. \<not> it_done it) its)
                 @ (if its \<noteq> [] \<and> it_done (last its) \<and> it_value (last its) \<noteq> VUndefined
                    then [it_value (last its)] else [])"
    by blast
qed


theorem take_calls_next_at_most_count_witness:
  "(\<forall>s. ts_range_next s \<noteq> None)
   \<and> lib_take ts_range_next (ts_range 0 1) 5 \<noteq> None
   \<and> ts_take ts_range_next (ts_range 0 1) 5 \<noteq> None
   \<and> lib_take (counted ts_range_next) (ts_range 0 1, 7) 0 = Some ([], (ts_range 0 1, 7))
   \<and> ts_take (counted ts_range_next) (ts_range 0 1, 7) 0 = Some ([], (ts_range 0 1, 7))
   \<and> lib_take (counted lib_range_next) (lib_range 0 3, 0) 2
       = Some ([VNum 0, VNum 1], (RangeState 2 3, 2))
   \<and> (\<exists>its. pulls lib_range_next (lib_range 0 3) its = Some (RangeState 2 3)
         \<and> 2 = 0 + length its
         \<and> [VNum 0, VNum 1] = map it_value (filter (\<lambda>it. \<not> it_done it) its))
   \<and> ts_take (counted ts_range_next) (ts_range 0 1, 0) 5
       = Some ([VNum 0, VNum 1], (RangeState 2 1, 3))
   \<and> (\<exists>its. pulls ts_range_next (ts_range 0 1) its = Some (RangeState 2 1)
         \<and> 3 = 0 + length its \<and> its \<noteq> [] \<and> it_done (last its))
   \<and> ts_take (counted (ts_yield_return_next (VNum 5))) (([VNum 1], False), 0) 3
       = Some ([VNum 1, VNum 5], (([], True), 2))
   \<and> (\<exists>its. pulls (ts_yield_return_next (VNum 5)) ([VNum 1], False) its = Some ([], True)
         \<and> 2 = 0 + length its
         \<and> [VNum 1, VNum 5] = map it_value (filter (\<lambda>it. \<not> it_done it) its)
               @ (if its \<noteq> [] \<and> it_done (last its) \<and> it_value (last its) \<noteq> VUndefined
                  then [it_value (last its)] else []))"
proof -
  have total: "\<forall>s. ts_range_next s \<noteq> None"
    by (simp add: ts_range_next_def)
  have l: "lib_take (counted lib_range_next) (lib_range 0 3, 0) 2
       = Some ([VNum 0, VNum 1], (RangeState 2 3, 2))"
    by (simp add: lib_take_def lib_range_def lib_range_next_def js_increment_def counted_def)
  have t: "ts_take (counted ts_range_next) (ts_range 0 1, 0) 5
       = Some ([VNum 0, VNum 1], (RangeState 2 1, 3))"
    by (simp add: ts_take_def ts_range_def ts_range_next_def js_increment_def counted_def)
  have y: "ts_take (counted (ts_yield_return_next (VNum 5))) (([VNum 1], False), 0) 3
       = Some ([VNum 1, VNum 5], (([], True), 2))"
    by (simp add: ts_take_def ts_yield_return_next_def counted_def)
  note d = take_calls_next_at_most_count[where nx = "ts_yield_return_next (VNum 5)"
      and s = "([VNum 1], False)" and c = 3 and n = 0 and r = "[VNum 1, VNum 5]"
      and s' = "([], True)" and n' = 2]
  note a = take_calls_next_at_most_count[where nx = ts_range_next and s = "ts_range 0 1"
      and c = 5 and n = 0 and r = "[VNum 0, VNum 1]" and s' = "RangeState 2 1" and n' = 3]
  note b = take_calls_next_at_most_count[where nx = ts_range_next and s = "ts_range 0 1"
      and c = 0 and n = 7]
  note c = take_calls_next_at_most_count[where nx = lib_range_next and s = "lib_range 0 3"
      and c = 2 and n = 0 and r = "[VNum 0, VNum 1]" and s' = "RangeState 2 3" and n' = 2]
  from a total have 1: "lib_take ts_range_next (ts_range 0 1) 5 \<noteq> None"
    and 2: "ts_take ts_range_next (ts_range 0 1) 5 \<noteq> None" by blast+
  from b have 3: "lib_take (counted ts_range_next) (ts_range 0 1, 7) 0 = Some ([], (ts_range 0 1, 7))"
    and 4: "ts_take (counted ts_range_next) (ts_range 0 1, 7) 0 = Some ([], (ts_range 0 1, 7))"
    by simp_all
  from c[THEN conjunct2, THEN conjunct2, THEN conjunct1, rule_format, OF l]
  have 5: "\<exists>its. pulls lib_range_next (lib_range 0 3) its = Some (RangeState 2 3)
         \<and> 2 = 0 + length its
         \<and> [VNum 0, VNum 1] = map it_value (filter (\<lambda>it. \<not> it_done it) its)"
    by (elim exE conjE, intro exI conjI) assumption+
  from a[THEN conjunct2, THEN conjunct2, THEN conjunct2, rule_format, OF t]
  have 6: "\<exists>its. pulls ts_range_next (ts_range 0 1) its = Some (RangeState 2 1)
         \<and> 3 = 0 + length its \<and> its \<noteq> [] \<and> it_done (last its)"
    by auto
  from d[THEN conjunct2, THEN conjunct2, THEN conjunct2, rule_format, OF y]
  have 7: "\<exists>its. pulls (ts_yield_return_next (VNum 5)) ([VNum 1], False) its = Some ([], True)
         \<and> 2 = 0 + length its
         \<and> [VNum 1, VNum 5] = map it_value (filter (\<lambda>it. \<not> it_done it) its)
               @ (if its \<noteq> [] \<and> it_done (last its) \<and> it_value (last its) \<noteq> VUndefined
                  then [it_value (last its)] else [])"
    by (elim exE conjE, intro exI conjI) assumption+
  from total 1 2 3 4 l 5 t 6 y 7 show ?thesis by blast
qed

text \<open>
  C8 as stated fails for the TypeScript \<^verbatim>\<open>take\<close>.  The generator of
  \<^verbatim>\<open>function* () { yield 1; return 5; }\<close> has one value available.  \<^verbatim>\<open>take\<close> with count 3
  stops at the done signal, after two calls of \<^verbatim>\<open>next\<close>, but what it returns is \<^verbatim>\<open>[1, 5]\<close>.
\<close>

theorem ts_take_returns_more_than_the_yielded_values:
  "ts_take (counted (ts_yield_return_next (VNum 5))) (([VNum 1], False), 0) 3
     = Some ([VNum 1, VNum 5], (([], True), 2))"
  by (simp add: ts_take_def ts_yield_return_next_def counted_def)

subsection \<open>filterMap\<close>

lemma lib_filterMap_once_aux:
  assumes "lib_filterMap_next nx' tr' sw = Some res"
    and "nx' = spy_pulls nx" and "tr' = spy_calls transform"
  shows "\<exists>vs. snd (fst (snd res)) = snd (fst sw) @ vs \<and> snd (snd (snd res)) = snd (snd sw) @ vs
      \<and> fst (snd (snd res)) = foldl (\<lambda>w v. snd (transform v w)) (fst (snd sw)) vs"
  using assms
proof (induction nx' tr' sw res rule: lib_filterMap_next.raw_induct[rotated 1, consumes 1])
  case (1 self nx' tr' sw res)
  obtain s p w q where sw: "sw = ((s, p), (w, q))" by (cases sw) auto
  have nx': "nx' (s, p) =
      map_option (\<lambda>(it, s'). (it, (s', if it_done it then p else p @ [it_value it]))) (nx s)"
    by (simp add: 1(3) spy_pulls_def)
  have tr': "\<And>v. tr' v (w, q) = (case transform v w of (res, w') \<Rightarrow> (res, (w', q @ [v])))"
    by (simp add: 1(4) spy_calls_def)
  note body = 1(2)[unfolded sw, simplified, unfolded nx']
  show ?case
  proof (cases "nx s")
    case None
    with body show ?thesis by simp
  next
    case (Some a)
    obtain it s1 where a: "a = (it, s1)" by (cases a)
    show ?thesis
    proof (cases "it_done it")
      case True
      with body Some a have "res = (it, ((s1, p), (w, q)))"
        by auto
      with sw show ?thesis by (intro exI[of _ "[]"]) simp
    next
      case False
      obtain mapped skipped w1 where tr: "transform (it_value it) w = ((mapped, skipped), w1)"
        by (metis surj_pair)
      show ?thesis
      proof (cases skipped)
        case True
        with body Some a False tr
        have "self nx' tr' ((s1, p @ [it_value it]), (w1, q @ [it_value it])) = Some res"
          by (simp add: tr')
        from 1(1)[OF this 1(3,4)] obtain vs where
          "snd (fst (snd res)) = (p @ [it_value it]) @ vs"
          "snd (snd (snd res)) = (q @ [it_value it]) @ vs"
          "fst (snd (snd res)) = foldl (\<lambda>w v. snd (transform v w)) w1 vs"
          by auto
        with sw tr show ?thesis
          by (intro exI[of _ "it_value it # vs"]) simp
      next
        case nskip: False
        with body Some a False tr
        have "res = (Iteration mapped False, ((s1, p @ [it_value it]), (w1, q @ [it_value it])))"
          by (auto simp: tr')
        with sw tr show ?thesis
          by (intro exI[of _ "[it_value it]"]) simp
      qed
    qed
  qed
qed

lemma ts_filterMap_once_aux:
  assumes "ts_filterMap_next nx' tr' gw = Some res"
    and "nx' = spy_pulls nx" and "tr' = spy_calls transform"
  shows "\<exists>vs. snd (forof_iterator (fst (snd res))) = snd (forof_iterator (fst gw)) @ vs
      \<and> snd (snd (snd res)) = snd (snd gw) @ vs
      \<and> fst (snd (snd res)) = foldl (\<lambda>w v. snd (transform v w)) (fst (snd gw)) vs"
  using assms
proof (induction nx' tr' gw res rule: ts_filterMap_next.raw_induct[rotated 1, consumes 1])
  case (1 self nx' tr' gw res)
  obtain s p fin w q where gw: "gw = (ForOf (s, p) fin, (w, q))"
    by (cases gw; cases "fst gw") auto
  have nx': "nx' (s, p) =
      map_option (\<lambda>(it, s'). (it, (s', if it_done it then p else p @ [it_value it]))) (nx s)"
    by (simp add: 1(3) spy_pulls_def)
  have tr': "\<And>v. tr' v (w, q) = (case transform v w of (res, w') \<Rightarrow> (res, (w', q @ [v])))"
    by (simp add: 1(4) spy_calls_def)
  note body = 1(2)[unfolded gw, simplified]
  show ?case
  proof (cases fin)
    case True
    with body have "res = (Iteration VUndefined True, (ForOf (s, p) fin, (w, q)))" by auto
    with gw show ?thesis by (intro exI[of _ "[]"]) simp
  next
    case running: False
    show ?thesis
    proof (cases "nx s")
      case None
      with body running show ?thesis by (simp add: nx')
    next
      case (Some a)
      obtain it s1 where a: "a = (it, s1)" by (cases a)
      show ?thesis
      proof (cases "it_done it")
        case True
        with body running Some a have "res = (Iteration VUndefined True, (ForOf (s1, p) True, (w, q)))"
          by (auto simp: nx')
        with gw show ?thesis by (intro exI[of _ "[]"]) simp
      next
        case False
        obtain mapped skipped w1 where tr: "transform (it_value it) w = ((mapped, skipped), w1)"
          by (metis surj_pair)
        show ?thesis
        proof (cases "\<not> skipped \<and> mapped \<noteq> VUndefined")
          case False
          with body running Some a \<open>\<not> it_done it\<close> tr
          have "self nx' tr' (ForOf (s1, p @ [it_value it]) False, (w1, q @ [it_value it])) = Some res"
            by (auto simp: nx' tr')
          from 1(1)[OF this 1(3,4)] obtain vs where
            "snd (forof_iterator (fst (snd res))) = (p @ [it_value it]) @ vs"
            "snd (snd (snd res)) = (q @ [it_value it]) @ vs"
            "fst (snd (snd res)) = foldl (\<lambda>w v. snd (transform v w)) w1 vs"
            by auto
          with gw tr show ?thesis
            by (intro exI[of _ "it_value it # vs"]) simp
        next
          case True
          with body running Some a \<open>\<not> it_done it\<close> tr
          have "res = (Iteration mapped False,
                  (ForOf (s1, p @ [it_value it]) False, (w1, q @ [it_value it])))"
            by (auto simp: nx' tr')
          with gw tr show ?thesis
            by (intro exI[of _ "[it_value it]"]) simp
        qed
      qed
    qed
  qed
qed


text \<open>
  C5, as amended.  One call of \<^verbatim>\<open>next\<close> that finds the value \<open>v\<close> in the underlying
  sequence, where the transform returns \<open>mappedValue\<close> for \<open>v\<close> and \<open>skipped\<close> says whether it
  has called \<^verbatim>\<open>skip\<close>.  The generator of the TypeScript sources discards \<open>v\<close> and tries the
  next value when \<^verbatim>\<open>skip\<close> was called or \<open>mappedValue\<close> is \<^verbatim>\<open>undefined\<close>, and yields
  \<open>mappedValue\<close> otherwise.  The object of lib/index.js discards \<open>v\<close> and tries the next value
  when \<^verbatim>\<open>skip\<close> was called, and yields \<open>mappedValue\<close> otherwise, also when it is \<^verbatim>\<open>undefined\<close>.
\<close>

theorem filterMap_discards_on_its_signals:
  assumes "nx s = Some (Iteration v False, s')"
    and "transform v w = ((mappedValue, skipped), w')"
  shows "ts_filterMap_next nx transform (ForOf s False, w) =
           (if skipped \<or> mappedValue = VUndefined
            then ts_filterMap_next nx transform (ForOf s' False, w')
            else Some (Iteration mappedValue False, (ForOf s' False, w')))
       \<and> lib_filterMap_next nx transform (s, w) =
           (if skipped then lib_filterMap_next nx transform (s', w')
            else Some (Iteration mappedValue False, (s', w')))"
proof
  show "ts_filterMap_next nx transform (ForOf s False, w) =
           (if skipped \<or> mappedValue = VUndefined
            then ts_filterMap_next nx transform (ForOf s' False, w')
            else Some (Iteration mappedValue False, (ForOf s' False, w')))"
    using assms by (subst ts_filterMap_next.simps) simp
  show "lib_filterMap_next nx transform (s, w) =
           (if skipped then lib_filterMap_next nx transform (s', w')
            else Some (Iteration mappedValue False, (s', w')))"
    using assms by (subst lib_filterMap_next.simps) simp
qed

theorem filterMap_discards_on_its_signals_witness:
  "ts_range_next (ts_range 0 3) = Some (Iteration (VNum 0) False, RangeState 1 3)
   \<and> lib_range_next (lib_range 0 3) = Some (Iteration (VNum 0) False, RangeState 1 3)
   \<and> negate_odd (VNum 0) () = ((VUndefined, False), ())
   \<and> ts_filterMap_next ts_range_next negate_odd (ForOf (ts_range 0 3) False, ())
       = ts_filterMap_next ts_range_next negate_odd (ForOf (RangeState 1 3) False, ())
   \<and> lib_filterMap_next lib_range_next negate_odd (lib_range 0 3, ())
       = Some (Iteration VUndefined False, (RangeState 1 3, ()))"
proof -
  have a: "ts_range_next (ts_range 0 3) = Some (Iteration (VNum 0) False, RangeState 1 3)"
    by (simp add: ts_range_def ts_range_next_def js_increment_def)
  have a': "lib_range_next (lib_range 0 3) = Some (Iteration (VNum 0) False, RangeState 1 3)"
    by (simp add: lib_range_def lib_range_next_def js_increment_def)
  have b: "negate_odd (VNum 0) () = ((VUndefined, False), ())"
    by (simp add: negate_odd_def)
  from filterMap_discards_on_its_signals
         [of ts_range_next "ts_range 0 3" "VNum 0" "RangeState 1 3" negate_odd "()"
             VUndefined False "()", OF a b]
       filterMap_discards_on_its_signals
         [of lib_range_next "lib_range 0 3" "VNum 0" "RangeState 1 3" negate_odd "()"
             VUndefined False "()", OF a' b]
       a a' b
  show ?thesis by simp
qed

text \<open>
  C5 as stated fails for lib/index.js.  The transform returns \<^verbatim>\<open>undefined\<close> for 0 and 2 without
  calling \<^verbatim>\<open>skip\<close>: \<^verbatim>\<open>filterMap\<close> of lib/index.js yields \<^verbatim>\<open>undefined\<close> for them, where the
  claim, and \<^verbatim>\<open>filterMap\<close> of the TypeScript sources, discard them.
\<close>

theorem lib_filterMap_yields_undefined:
  "negate_odd (VNum 0) () = ((VUndefined, False), ())
   \<and> lib_filterMap_next lib_range_next negate_odd (lib_range 0 3, ())
       = Some (Iteration VUndefined False, (RangeState 1 3, ()))
   \<and> lib_toArray (lib_filterMap_next lib_range_next negate_odd) (lib_range 0 3, ())
       = Some ([VUndefined, VNum (- 1), VUndefined, VNum (- 3)], (RangeState 4 3, ()))
   \<and> ts_toArray (ts_filterMap_next ts_range_next negate_odd) (ForOf (ts_range 0 3) False, ())
       = Some ([VNum (- 1), VNum (- 3)], (ForOf (RangeState 4 3) True, ()))"
  by code_simp

text \<open>
  C10.  One call of \<^verbatim>\<open>next\<close> on a \<^verbatim>\<open>filterMap\<close> sequence, in either library, that returns:
  the values \<open>vs\<close> pulled from the underlying sequence during the call are exactly the
  arguments of the calls of the transform, in the same order, and the effect of the
  transform has been applied once for each of them in that order.
\<close>

theorem filterMap_calls_transform_once_per_value:
  "(lib_filterMap_next (spy_pulls nx) (spy_calls transform) ((s, p), (w, q))
      = Some (it, ((s', p'), (w', q')))
    \<longrightarrow> (\<exists>vs. p' = p @ vs \<and> q' = q @ vs \<and> w' = foldl (\<lambda>w v. snd (transform v w)) w vs))
   \<and> (ts_filterMap_next (spy_pulls nx) (spy_calls transform) (ForOf (s, p) fin, (w, q))
      = Some (it, (ForOf (s', p') fin', (w', q')))
    \<longrightarrow> (\<exists>vs. p' = p @ vs \<and> q' = q @ vs \<and> w' = foldl (\<lambda>w v. snd (transform v w)) w vs))"
proof (intro conjI impI)
  assume "lib_filterMap_next (spy_pulls nx) (spy_calls transform) ((s, p), (w, q))
      = Some (it, ((s', p'), (w', q')))"
  from lib_filterMap_once_aux[OF this refl refl]
  show "\<exists>vs. p' = p @ vs \<and> q' = q @ vs \<and> w' = foldl (\<lambda>w v. snd (transform v w)) w vs"
    by simp
next
  assume "ts_filterMap_next (spy_pulls nx) (spy_calls transform) (ForOf (s, p) fin, (w, q))
      = Some (it, (ForOf (s', p') fin', (w', q')))"
  from ts_filterMap_once_aux[OF this refl refl]
  show "\<exists>vs. p' = p @ vs \<and> q' = q @ vs \<and> w' = foldl (\<lambda>w v. snd (transform v w)) w vs"
    by simp
qed

theorem filterMap_calls_transform_once_per_value_witness:
  "lib_filterMap_next (spy_pulls lib_range_next) (spy_calls (counting negate_odd_skip))
       ((lib_range 0 3, []), (0, []))
     = Some (Iteration (VNum (- 1)) False, ((RangeState 2 3, [VNum 0, VNum 1]), (2, [VNum 0, VNum 1])))
   \<and> (\<exists>vs. [VNum 0, VNum 1] = [] @ vs
         \<and> 2 = foldl (\<lambda>w v. snd (counting negate_odd_skip v w)) 0 vs)
   \<and> ts_filterMap_next (spy_pulls ts_range_next) (spy_calls (counting negate_odd_skip))
       (ForOf (ts_range 0 3, []) False, (0, []))
     = Some (Iteration (VNum (- 1)) False,
         (ForOf (RangeState 2 3, [VNum 0, VNum 1]) False, (2, [VNum 0, VNum 1])))"
proof -
  have l: "lib_filterMap_next (spy_pulls lib_range_next) (spy_calls (counting negate_odd_skip))
       ((lib_range 0 3, []), (0, []))
     = Some (Iteration (VNum (- 1)) False, ((RangeState 2 3, [VNum 0, VNum 1]), (2, [VNum 0, VNum 1])))"
    by code_simp
  have t: "ts_filterMap_next (spy_pulls ts_range_next) (spy_calls (counting negate_odd_skip))
       (ForOf (ts_range 0 3, []) False, (0, []))
     = Some (Iteration (VNum (- 1)) False,
         (ForOf (RangeState 2 3, [VNum 0, VNum 1]) False, (2, [VNum 0, VNum 1])))"
    by code_simp
  note a = filterMap_calls_transform_once_per_value[where nx = lib_range_next
      and transform = "counting negate_odd_skip" and s = "lib_range 0 3" and p = "[]" and w = 0
      and q = "[]" and it = "Iteration (VNum (- 1)) False" and s' = "RangeState 2 3"
      and p' = "[VNum 0, VNum 1]" and w' = 2 and q' = "[VNum 0, VNum 1]"]
  from a[THEN conjunct1, rule_format, OF l]
  have "\<exists>vs. [VNum 0, VNum 1] = [] @ vs
         \<and> 2 = foldl (\<lambda>w v. snd (counting negate_odd_skip v w)) 0 vs"
    by auto
  with l t show ?thesis by blast
qed

subsection \<open>copy\<close>

lemma ts_take_one:
  assumes "seq_yields nx u ys"
  shows "\<exists>u'. ts_take nx u 1 = Some (case ys of [] \<Rightarrow> [] | y # _ \<Rightarrow> [y], u')
         \<and> (ys \<noteq> [] \<longrightarrow> seq_yields nx u' (tl ys))"
proof (cases ys)
  case Nil
  with assms obtain it u' where "nx u = Some (it, u')" "it_done it" "it_value it = VUndefined"
    by (auto split: option.splits)
  with Nil show ?thesis by (simp add: ts_take_def)
next
  case (Cons y ys')
  with assms obtain it u' where "nx u = Some (it, u')" "\<not> it_done it" "it_value it = y"
    "seq_yields nx u' ys'"
    by (auto split: option.splits)
  with Cons show ?thesis by (simp add: ts_take_def)
qed

lemma copy_fetch:
  assumes "copy_inv nx xs c" and "index \<le> length xs"
  shows "\<exists>c'. getIteratorResultAtIndex nx c index =
            Some (Iteration (js_index xs index) (length xs \<le> index), c')
          \<and> copy_inv nx xs c'
          \<and> length (copy_values c') = max (length (copy_values c)) (index + 1)
          \<and> copy_indexes c' = copy_indexes c"
  using assms
proof (induction "index + 1 - length (copy_values c)" arbitrary: c)
  case 0
  then have lt: "index < length (copy_values c)" by simp
  from 0(2) have vals: "copy_values c = take (length (copy_values c)) (xs @ [VUndefined])"
    and mx: "copy_maxIndex c = (if copy_done c then Some (int (length xs) - 1) else None)"
    and dn: "copy_done c \<longleftrightarrow> length (copy_values c) = length xs + 1"
    by (simp_all add: copy_inv_def)
  have v: "js_index (copy_values c) index = js_index xs index"
  proof -
    have "copy_values c ! index = take (length (copy_values c)) (xs @ [VUndefined]) ! index"
      using arg_cong[OF vals, of "\<lambda>l. l ! index"] .
    also have "\<dots> = (xs @ [VUndefined]) ! index"
      using lt by (simp only: nth_take)
    finally have "copy_values c ! index = (xs @ [VUndefined]) ! index" .
    then show ?thesis using lt \<open>index \<le> length xs\<close>
      by (auto simp: js_index_def nth_append)
  qed
  have d: "(case copy_maxIndex c of None \<Rightarrow> False | Some m \<Rightarrow> int index > m)
      = (length xs \<le> index)"
    using mx dn lt 0(2) by (auto simp: copy_inv_def)
  show ?case
    using lt 0(2) v d by (subst getIteratorResultAtIndex.simps) (simp add: max_def)
next
  case (Suc k)
  let ?L = "length (copy_values c)"
  from Suc(2) have le: "?L \<le> index" by simp
  with Suc.prems have Llt: "?L \<le> length xs" by simp
  from Suc.prems(1) have inv:
    "copy_values c = take ?L (xs @ [VUndefined])"
    "copy_done c \<longleftrightarrow> ?L = length xs + 1"
    "copy_maxIndex c = (if copy_done c then Some (int (length xs) - 1) else None)"
    "\<not> copy_done c \<longrightarrow> seq_yields nx (copy_iterable c) (drop ?L xs)"
    by (simp_all add: copy_inv_def)
  from inv(2) Llt have nd: "\<not> copy_done c" by simp
  with inv have sy: "seq_yields nx (copy_iterable c) (drop ?L xs)"
    and mxn: "copy_maxIndex c = None" by simp_all
  from ts_take_one[OF sy] obtain u' where
    tk: "ts_take nx (copy_iterable c) 1 =
           Some (case drop ?L xs of [] \<Rightarrow> [] | y # _ \<Rightarrow> [y], u')"
    and sy': "drop ?L xs \<noteq> [] \<longrightarrow> seq_yields nx u' (tl (drop ?L xs))"
    by blast
  let ?va = "case drop ?L xs of [] \<Rightarrow> [] | y # _ \<Rightarrow> [y]"
  let ?c1 = "if length ?va = 0
                then CopyState u' (copy_values c @ [js_index ?va 0]) (copy_indexes c)
                       True (Some (int ?L - 1))
                else CopyState u' (copy_values c @ [js_index ?va 0]) (copy_indexes c)
                       (copy_done c) (copy_maxIndex c)"
  have unfold: "getIteratorResultAtIndex nx c index = getIteratorResultAtIndex nx ?c1 index"
    using le nd tk by (subst getIteratorResultAtIndex.simps) simp
  have pushed: "js_index ?va 0 = (xs @ [VUndefined]) ! ?L"
    using Llt by (cases "drop ?L xs")
      (auto simp: js_index_def nth_append hd_drop_conv_nth[symmetric] dest: arg_cong[where f = hd])
  have len1: "length (copy_values ?c1) = Suc ?L" by simp
  have vals1: "copy_values ?c1 = take (Suc ?L) (xs @ [VUndefined])"
  proof -
    have "?L < length (xs @ [VUndefined])" using Llt by simp
    then have "take (Suc ?L) (xs @ [VUndefined])
        = take ?L (xs @ [VUndefined]) @ [(xs @ [VUndefined]) ! ?L]"
      by (rule take_Suc_conv_app_nth)
    moreover have "copy_values ?c1 = copy_values c @ [js_index ?va 0]" by simp
    ultimately show ?thesis using inv(1) pushed by (simp only:)
  qed
  have inv1: "copy_inv nx xs ?c1"
  proof (cases "drop ?L xs")
    case Nil
    then have "?L = length xs" using Llt by simp
    with Nil vals1 show ?thesis
      by (simp add: copy_inv_def)
  next
    case (Cons y ys)
    then have lt: "?L < length xs" by (metis drop_eq_Nil list.distinct(1) not_le)
    have "drop (Suc ?L) xs = ys"
      using Cons by (metis drop_Suc tl_drop list.sel(3))
    with Cons sy' have "seq_yields nx u' (drop (Suc ?L) xs)"
      by simp
    with lt show ?thesis using Cons vals1 nd mxn
      by (simp add: copy_inv_def)
  qed
  have k: "k = index + 1 - length (copy_values ?c1)" using Suc(2) len1 by simp
  from Suc(1)[OF k inv1 Suc.prems(2)] obtain c' where
    c': "getIteratorResultAtIndex nx ?c1 index =
            Some (Iteration (js_index xs index) (length xs \<le> index), c')"
      "copy_inv nx xs c'"
      "length (copy_values c') = max (length (copy_values ?c1)) (index + 1)"
      "copy_indexes c' = copy_indexes ?c1"
    by blast
  show ?case
    using c' unfold le len1 by (intro exI[of _ c']) (simp add: max_def)
qed

lemma copy_next_script:
  assumes "copy_inv nx xs c" and "cursors_inv c"
    and "ident < length (copy_indexes c)" and "copy_indexes c ! ident \<le> length xs"
  shows "\<exists>c'. copy_next nx c ident =
            Some (Iteration (js_index xs (copy_indexes c ! ident))
                    (length xs \<le> copy_indexes c ! ident), c')
          \<and> copy_inv nx xs c' \<and> cursors_inv c'
          \<and> copy_indexes c' = (copy_indexes c)[ident := copy_indexes c ! ident + 1]"
proof -
  let ?k = "copy_indexes c ! ident"
  let ?c0 = "CopyState (copy_iterable c) (copy_values c) ((copy_indexes c)[ident := ?k + 1])
              (copy_done c) (copy_maxIndex c)"
  have inv0: "copy_inv nx xs ?c0" using assms(1) by (simp add: copy_inv_def)
  from copy_fetch[OF inv0 assms(4)] obtain c' where
    c': "getIteratorResultAtIndex nx ?c0 ?k =
            Some (Iteration (js_index xs ?k) (length xs \<le> ?k), c')"
      "copy_inv nx xs c'"
      "length (copy_values c') = max (length (copy_values c)) (?k + 1)"
      "copy_indexes c' = (copy_indexes c)[ident := ?k + 1]"
    by auto
  have "cursors_inv c'"
  proof -
    have a: "\<forall>p \<in> set (copy_indexes c'). p \<le> length (copy_values c')"
    proof
      fix p assume "p \<in> set (copy_indexes c')"
      then have "p = ?k + 1 \<or> p \<in> set (copy_indexes c)"
        using c'(4) set_update_subset_insert[of "copy_indexes c" ident "?k + 1"] by auto
      then show "p \<le> length (copy_values c')"
        using assms(2) c'(3) by (auto simp: cursors_inv_def)
    qed
    have b: "length (copy_values c') \<in> set (copy_indexes c')"
    proof (cases "length (copy_values c) \<le> ?k + 1")
      case True
      then have "length (copy_values c') = ?k + 1" using c'(3) by simp
      then show ?thesis using c'(4) assms(3) by (simp add: set_update_memI)
    next
      case False
      then have L: "length (copy_values c') = length (copy_values c)"
        and gt: "?k + 1 < length (copy_values c)" using c'(3) by simp_all
      with assms(2) have "length (copy_values c) \<in> set (copy_indexes c)"
        by (auto simp: cursors_inv_def)
      then obtain j where j: "j < length (copy_indexes c)"
        "copy_indexes c ! j = length (copy_values c)"
        by (auto simp: in_set_conv_nth)
      with gt have "j \<noteq> ident" by auto
      with j have "(copy_indexes c)[ident := ?k + 1] ! j = length (copy_values c)"
        "j < length ((copy_indexes c)[ident := ?k + 1])" by simp_all
      then have "length (copy_values c) \<in> set ((copy_indexes c)[ident := ?k + 1])"
        by (metis nth_mem)
      then show ?thesis using L c'(4) by simp
    qed
    from a b show ?thesis by (simp add: cursors_inv_def)
  qed
  with c' show ?thesis
    by (intro exI[of _ c']) (simp add: copy_next_def Let_def)
qed

lemma run_script_results:
  assumes "copy_inv nx xs c" and "cursors_inv c"
    and "script_ok (length xs) (copy_indexes c) ops"
  shows "\<exists>c'. run_script nx c ops = Some (script_results xs (copy_indexes c) ops, c')
          \<and> copy_inv nx xs c' \<and> cursors_inv c'"
  using assms
proof (induction ops arbitrary: c)
  case Nil
  then show ?case by simp
next
  case (Cons op ops)
  show ?case
  proof (cases op)
    case NewIterator
    let ?c1 = "snd (copy_iterator c)"
    have i: "copy_inv nx xs ?c1" using Cons.prems(1)
      by (simp add: copy_inv_def copy_iterator_def)
    have j: "cursors_inv ?c1" using Cons.prems(2)
      by (auto simp: cursors_inv_def copy_iterator_def)
    have k: "script_ok (length xs) (copy_indexes ?c1) ops"
      using Cons.prems(3) NewIterator by (simp add: copy_iterator_def)
    from Cons.IH[OF i j k] NewIterator show ?thesis
      by (simp add: copy_iterator_def)
  next
    case (Next ident)
    with Cons.prems(3) have ok: "ident < length (copy_indexes c)"
      "copy_indexes c ! ident \<le> length xs"
      "script_ok (length xs) ((copy_indexes c)[ident := copy_indexes c ! ident + 1]) ops"
      by simp_all
    from copy_next_script[OF Cons.prems(1,2) ok(1,2)] obtain c1 where
      c1: "copy_next nx c ident =
            Some (Iteration (js_index xs (copy_indexes c ! ident))
                    (length xs \<le> copy_indexes c ! ident), c1)"
        "copy_inv nx xs c1" "cursors_inv c1"
        "copy_indexes c1 = (copy_indexes c)[ident := copy_indexes c ! ident + 1]"
      by blast
    from Cons.IH[OF c1(2,3)] ok(3) c1(4) obtain c' where
      "run_script nx c1 ops = Some (script_results xs (copy_indexes c1) ops, c')"
      "copy_inv nx xs c'" "cursors_inv c'"
      by auto
    with c1 Next show ?thesis by simp
  qed
qed

text \<open>
  Counting the calls on the underlying sequence: \<^verbatim>\<open>take(iterable, 1)\<close> makes one call,
  and so every entry that is added to the cache costs one call.
\<close>

lemma ts_take_one_calls:
  assumes "ts_take (counted nx) (u, m) 1 = Some (valueArray, (u', m'))"
  shows "m' = Suc m"
proof -
  from assms have "ts_take_loop (counted nx) (u, m) 1 [] = Some (valueArray, (u', m'))"
    by (simp add: ts_take_def)
  from ts_take_loop_counted[OF this] obtain its where
    "m' = m + length its" "int (length its) \<le> max 1 0"
    "int (length its) < 1 \<longrightarrow> its \<noteq> [] \<and> it_done (last its)"
    by blast
  then show ?thesis by (cases its) auto
qed

lemma getIteratorResultAtIndex_calls:
  assumes "getIteratorResultAtIndex nx' c index = Some (it, c')" and "nx' = counted nx"
  shows "snd (copy_iterable c') + length (copy_values c)
       = snd (copy_iterable c) + length (copy_values c')"
proof -
  have "snd (copy_iterable (snd r)) + length (copy_values c)
       = snd (copy_iterable c) + length (copy_values (snd r))"
    if "getIteratorResultAtIndex nx' c index = Some r" "nx' = counted nx" for r
    using that
  proof (induction nx' c index r rule: getIteratorResultAtIndex.raw_induct[rotated 1, consumes 1])
    case (1 self nx' c index r)
    show ?case
    proof (cases "length (copy_values c) \<le> index")
      case False
      with 1(2) show ?thesis by auto
    next
      case le: True
      show ?thesis
      proof (cases "copy_done c")
        case True
        with 1(2) le have "self nx' c index = Some r" by simp
        from 1(1)[OF this 1(3)] show ?thesis .
      next
        case False
        obtain u m where um: "copy_iterable c = (u, m)" by (cases "copy_iterable c")
        from 1(2) le False um obtain valueArray u' m' where
          tk: "ts_take (counted nx) (u, m) 1 = Some (valueArray, (u', m'))"
          unfolding 1(3) by (cases "ts_take (counted nx) (u, m) 1") auto
        from ts_take_one_calls[OF tk] have m': "m' = Suc m" .
        let ?c1 = "if length valueArray = 0
                then CopyState (u', m') (copy_values c @ [js_index valueArray 0]) (copy_indexes c)
                       True (Some (int (length (copy_values c)) - 1))
                else CopyState (u', m') (copy_values c @ [js_index valueArray 0]) (copy_indexes c)
                       (copy_done c) (copy_maxIndex c)"
        from 1(2) le False um tk have "self nx' ?c1 index = Some r"
          unfolding 1(3) by simp
        from 1(1)[OF this 1(3)] m' um show ?thesis by (simp split: if_splits)
      qed
    qed
  qed
  from this[OF assms] show ?thesis by simp
qed

lemma run_script_calls:
  assumes "run_script (counted nx) c ops = Some (its, c')"
  shows "snd (copy_iterable c') + length (copy_values c)
       = snd (copy_iterable c) + length (copy_values c')"
  using assms
proof (induction ops arbitrary: c its)
  case Nil
  then show ?case by simp
next
  case (Cons op ops)
  show ?case
  proof (cases op)
    case NewIterator
    with Cons.prems have "run_script (counted nx) (snd (copy_iterator c)) ops = Some (its, c')"
      by simp
    from Cons.IH[OF this] show ?thesis by (simp add: copy_iterator_def)
  next
    case (Next ident)
    with Cons.prems obtain it c1 its1 where
      n: "copy_next (counted nx) c ident = Some (it, c1)"
      and r: "run_script (counted nx) c1 ops = Some (its1, c')"
      by (auto simp: bind_eq_Some_conv)
    from n have "snd (copy_iterable c1) + length (copy_values c)
       = snd (copy_iterable c) + length (copy_values c1)"
      unfolding copy_next_def Let_def
      using getIteratorResultAtIndex_calls[OF _ refl] by fastforce
    with Cons.IH[OF r] show ?thesis by simp
  qed
qed

lemma seq_yields_counted:
  "seq_yields nx u xs \<Longrightarrow> seq_yields (counted nx) (u, m) xs"
  by (induction xs arbitrary: u m) (auto simp: counted_def split: option.splits)

lemma getIteratorResultAtIndex_cached:
  assumes "index < length (copy_values c)"
  shows "getIteratorResultAtIndex nx c index =
     Some (Iteration (copy_values c ! index)
             (case copy_maxIndex c of None \<Rightarrow> False | Some m \<Rightarrow> int index > m), c)"
  using assms by (subst getIteratorResultAtIndex.simps) (simp add: js_index_def)

lemma getIteratorResultAtIndex_returns:
  assumes "getIteratorResultAtIndex nx c index = Some y"
  shows "\<not> (copy_done c \<and> length (copy_values c) \<le> index)"
  using assms
proof (induction nx c index y rule: getIteratorResultAtIndex.raw_induct[rotated 1, consumes 1])
  case (1 self nx c index y)
  show ?case
  proof
    assume stuck: "copy_done c \<and> length (copy_values c) \<le> index"
    with 1(2) have "self nx c index = Some y" by simp
    from 1(1)[OF this] stuck show False by simp
  qed
qed

lemma getIteratorResultAtIndex_stuck:
  assumes "copy_done c" and "length (copy_values c) \<le> index"
  shows "getIteratorResultAtIndex nx c index = None"
proof (cases "getIteratorResultAtIndex nx c index")
  case None
  then show ?thesis .
next
  case (Some y)
  from getIteratorResultAtIndex_returns[OF this] assms show ?thesis by simp
qed

text \<open>
  C3, as amended.  Let the underlying sequence be a generator object that yields the \<open>n\<close>
  values \<open>xs\<close> and then signals done with the value \<^verbatim>\<open>undefined\<close> (a generator without a
  return value; this is \<open>seq_yields\<close>), and let any number of cursors over one copy of it be
  advanced in any interleaving, none of them beyond its done signal (\<open>script_ok\<close>).  Then
  every call returns, and a cursor yields \<open>xs\<close> in order and then done.  The number of
  calls of \<^verbatim>\<open>next\<close> made on the underlying sequence is the position of the furthest cursor:
  one call for each position read, at most \<open>n + 1\<close>, which counts the call that observes
  the end.  Reading a position below that number again returns the same result and leaves
  the whole state, the underlying sequence and its call counter included, as it is.
\<close>

theorem copy_replays_and_pulls_each_position_once:
  assumes "seq_yields nx u xs" and "script_ok (length xs) [] ops"
  shows "\<exists>c'. run_script (counted nx) (copy (u, 0)) ops = Some (script_results xs [] ops, c')
           \<and> snd (copy_iterable c') = Max (insert 0 (set (copy_indexes c')))
           \<and> snd (copy_iterable c') \<le> length xs + 1
           \<and> (\<forall>k < snd (copy_iterable c').
                 getIteratorResultAtIndex (counted nx) c' k
                   = Some (Iteration (js_index xs k) (length xs \<le> k), c'))"
proof -
  have i: "copy_inv (counted nx) xs (copy (u, 0))"
    using seq_yields_counted[OF assms(1), of 0] by (simp add: copy_inv_def copy_def)
  have j: "cursors_inv (copy (u, 0))" by (simp add: cursors_inv_def copy_def)
  have k: "script_ok (length xs) (copy_indexes (copy (u, 0))) ops"
    using assms(2) by (simp add: copy_def)
  from run_script_results[OF i j k] obtain c' where
    c': "run_script (counted nx) (copy (u, 0)) ops = Some (script_results xs [] ops, c')"
      "copy_inv (counted nx) xs c'" "cursors_inv c'"
    by (auto simp: copy_def)
  let ?L = "length (copy_values c')"
  from run_script_calls[OF c'(1)] have cnt: "snd (copy_iterable c') = ?L"
    by (simp add: copy_def)
  from c'(2) have le: "?L \<le> length xs + 1"
    by (simp add: copy_inv_def)
  have mx: "Max (insert 0 (set (copy_indexes c'))) = ?L"
    using c'(3) by (intro Max_eqI) (auto simp: cursors_inv_def)
  have cached: "getIteratorResultAtIndex (counted nx) c' k
                   = Some (Iteration (js_index xs k) (length xs \<le> k), c')" if "k < ?L" for k
  proof -
    from that le have kn: "k \<le> length xs" by simp
    from copy_fetch[OF c'(2) kn] obtain c'' where
      f: "getIteratorResultAtIndex (counted nx) c' k =
            Some (Iteration (js_index xs k) (length xs \<le> k), c'')"
      by blast
    with getIteratorResultAtIndex_cached[OF that, of "counted nx"] have "c'' = c'" by simp
    with f show ?thesis by simp
  qed
  from c'(1) cnt le mx cached show ?thesis
    by (intro exI[of _ c']) simp
qed

theorem copy_replays_and_pulls_each_position_once_witness:
  "seq_yields ts_range_next (ts_range 0 2) [VNum 0, VNum 1, VNum 2]
   \<and> script_ok (length [VNum 0, VNum 1, VNum 2]) [] two_interleaved
   \<and> (\<exists>c'. run_script (counted ts_range_next) (copy (ts_range 0 2, 0)) two_interleaved
          = Some ([Iteration (VNum 0) False, Iteration (VNum 0) False,
                   Iteration (VNum 1) False, Iteration (VNum 1) False,
                   Iteration (VNum 2) False, Iteration (VNum 2) False,
                   Iteration VUndefined True, Iteration VUndefined True], c')
        \<and> snd (copy_iterable c') \<le> 4)"
proof -
  have a: "seq_yields ts_range_next (ts_range 0 2) [VNum 0, VNum 1, VNum 2]"
    by (simp add: ts_range_def ts_range_next_def js_increment_def)
  have b: "script_ok (length [VNum 0, VNum 1, VNum 2]) [] two_interleaved"
    by (simp add: two_interleaved_def)
  have r: "script_results [VNum 0, VNum 1, VNum 2] [] two_interleaved
     = [Iteration (VNum 0) False, Iteration (VNum 0) False,
        Iteration (VNum 1) False, Iteration (VNum 1) False,
        Iteration (VNum 2) False, Iteration (VNum 2) False,
        Iteration VUndefined True, Iteration VUndefined True]"
    by (simp add: two_interleaved_def js_index_def)
  from copy_replays_and_pulls_each_position_once[OF a b] obtain c' where
    "run_script (counted ts_range_next) (copy (ts_range 0 2, 0)) two_interleaved
       = Some (script_results [VNum 0, VNum 1, VNum 2] [] two_interleaved, c')"
    "snd (copy_iterable c') \<le> length [VNum 0, VNum 1, VNum 2] + 1"
    by blast
  then have "\<exists>c'. run_script (counted ts_range_next) (copy (ts_range 0 2, 0)) two_interleaved
          = Some ([Iteration (VNum 0) False, Iteration (VNum 0) False,
                   Iteration (VNum 1) False, Iteration (VNum 1) False,
                   Iteration (VNum 2) False, Iteration (VNum 2) False,
                   Iteration VUndefined True, Iteration VUndefined True], c')
        \<and> snd (copy_iterable c') \<le> 4"
    unfolding r by (intro exI[of _ c']) simp
  with a b show ?thesis by blast
qed

text \<open>
  C3 as stated fails in its count: one iteration over \<^verbatim>\<open>copy(range(0, 2))\<close> calls \<^verbatim>\<open>next\<close> of
  the range four times, not three.  It also fails for a generator with a return value:
  the generator of \<^verbatim>\<open>function* () { yield 1; return 5; }\<close> is a sequence of one value, and
  one iteration over its copy yields 1 and 5 and calls \<^verbatim>\<open>next\<close> three times, since
  \<^verbatim>\<open>take(iterable, 1)\<close> hands the return value to \<^verbatim>\<open>copy\<close> as a value.
\<close>

theorem copy_pulls_once_more_than_values:
  "map_option (\<lambda>(its, c'). (its, snd (copy_iterable c')))
     (run_script (counted ts_range_next) (copy (ts_range 0 2, 0))
        [NewIterator, Next 0, Next 0, Next 0, Next 0])
   = Some ([Iteration (VNum 0) False, Iteration (VNum 1) False, Iteration (VNum 2) False,
            Iteration VUndefined True], 4)
   \<and> map_option (\<lambda>(its, c'). (its, snd (copy_iterable c')))
     (run_script (counted (ts_yield_return_next (VNum 5))) (copy (([VNum 1], False), 0))
        [NewIterator, Next 0, Next 0, Next 0])
   = Some ([Iteration (VNum 1) False, Iteration (VNum 5) False, Iteration VUndefined True], 3)"
  by code_simp

text \<open>
  C4 fails for \<^verbatim>\<open>copy\<close>.  A cursor over \<^verbatim>\<open>copy(range(0, 2))\<close> yields 0, 1, 2 and done; its
  next call of \<^verbatim>\<open>next\<close> asks for position 4 of a cache of length 4 with \<^verbatim>\<open>done\<close> set, and
  the loop of \<^verbatim>\<open>getIteratorResultAtIndex\<close> never ends.
\<close>

theorem copy_next_after_done_never_returns:
  "run_script ts_range_next (copy (ts_range 0 2)) [NewIterator, Next 0, Next 0, Next 0, Next 0]
     = Some ([Iteration (VNum 0) False, Iteration (VNum 1) False, Iteration (VNum 2) False,
              Iteration VUndefined True],
             CopyState (RangeState 3 2) [VNum 0, VNum 1, VNum 2, VUndefined] [4] True (Some 2))
   \<and> copy_next ts_range_next
        (CopyState (RangeState 3 2) [VNum 0, VNum 1, VNum 2, VUndefined] [4] True (Some 2)) 0
     = None"
proof
  show "run_script ts_range_next (copy (ts_range 0 2)) [NewIterator, Next 0, Next 0, Next 0, Next 0]
     = Some ([Iteration (VNum 0) False, Iteration (VNum 1) False, Iteration (VNum 2) False,
              Iteration VUndefined True],
             CopyState (RangeState 3 2) [VNum 0, VNum 1, VNum 2, VUndefined] [4] True (Some 2))"
    by code_simp
  show "copy_next ts_range_next
        (CopyState (RangeState 3 2) [VNum 0, VNum 1, VNum 2, VUndefined] [4] True (Some 2)) 0
     = None"
    by (simp add: copy_next_def getIteratorResultAtIndex_stuck)
qed

subsection \<open>combine and concat\<close>

lemma naturalNumbers_infinite:
  "naturalNumbers_next = infinite_next (\<lambda>v. (VNum v, v + 1))"
  by (rule ext) (simp add: naturalNumbers_next_def infinite_next_def)

lemma lib_forEach_never_done:
  assumes "lib_forEach nx f s c = Some y"
    and "\<And>s it s'. I s \<Longrightarrow> nx s = Some (it, s') \<Longrightarrow> \<not> it_done it \<and> I s'"
  shows "\<not> I s"
  using assms
proof (induction nx f s c y rule: lib_forEach.raw_induct[rotated 1, consumes 1])
  case (1 self nx f s c y)
  show ?case
  proof
    assume I: "I s"
    from 1(2) obtain it s' where nx: "nx s = Some (it, s')"
      by (cases "nx s") auto
    from 1(3)[OF I nx] have nd: "\<not> it_done it" and I': "I s'" by simp_all
    from 1(2) nx nd have "self nx f s' (f (it_value it) c) = Some y" by simp
    from 1(1)[OF this 1(3)] I' show False by simp
  qed
qed

lemma lgen_next_LSrc:
  "lgen_next nx (LSrc s) = Option.bind (nx s) (\<lambda>(iteration, s'). Some (iteration, LSrc s'))"
  by (subst lgen_next.simps) simp

lemma lib_toArray_naturalNumbers:
  "lib_toArray (lgen_next naturalNumbers_next) (LSrc v) = None"
proof (cases "lib_toArray (lgen_next naturalNumbers_next) (LSrc v)")
  case None
  then show ?thesis .
next
  case (Some y)
  have "\<not> (\<exists>n. LSrc v = (LSrc n :: int lgen))"
  proof (rule lib_forEach_never_done[OF Some[unfolded lib_toArray_def],
        where I = "\<lambda>g. \<exists>n. g = (LSrc n :: int lgen)"])
    fix s :: "int lgen" and it s'
    assume "\<exists>n. s = LSrc n" and "lgen_next naturalNumbers_next s = Some (it, s')"
    then show "\<not> it_done it \<and> (\<exists>n. s' = LSrc n)"
      by (auto simp: lgen_next_LSrc naturalNumbers_next_def)
  qed
  then show ?thesis by simp
qed

lemma tgen_next_TSrc:
  "tgen_next nx (TSrc s) = Option.bind (nx s) (\<lambda>(iteration, s'). Some (iteration, TSrc s'))"
  by (subst tgen_next.simps) simp

lemma tgen_next_One_infinite:
  "tgen_next (infinite_next step) (TCombineOne (TSrc s))
     = Some (Iteration (VArr [fst (step s)]) False, TCombineOne (TSrc (snd (step s))))"
  by (subst tgen_next.simps) (simp add: tgen_next_TSrc infinite_next_def split_beta)

lemma tgen_next_Start_one_infinite:
  "tgen_next (infinite_next step) (TCombineStart [TSrc s])
     = Some (Iteration (VArr [fst (step s)]) False, TCombineOne (TSrc (snd (step s))))"
  by (subst tgen_next.simps) (simp add: tgen_next_One_infinite)

lemma fetch_One_infinite:
  assumes "g = TCombineOne (TSrc s) \<or> g = TCombineStart [TSrc s]"
  shows "getIteratorResultAtIndex (tgen_next (infinite_next step))
       (CopyState g vs idx False None) (length vs)
     = Some (Iteration (VArr [fst (step s)]) False,
             CopyState (TCombineOne (TSrc (snd (step s)))) (vs @ [VArr [fst (step s)]]) idx
               False None)"
proof -
  have tk: "ts_take (tgen_next (infinite_next step)) g 1
      = Some ([VArr [fst (step s)]], TCombineOne (TSrc (snd (step s))))"
    using assms by (auto simp: ts_take_def tgen_next_One_infinite tgen_next_Start_one_infinite)
  show ?thesis
    by (subst getIteratorResultAtIndex.simps, simp add: tk,
        subst getIteratorResultAtIndex.simps, simp add: js_index_def)
qed

lemma state_after_Suc: "state_after step s (Suc j) = snd (step (state_after step s j))"
  by (induction j arbitrary: s) simp_all

lemma values_from_Suc:
  "values_from step s (Suc j) = values_from step s j @ [fst (step (state_after step s j))]"
  by (induction j arbitrary: s) simp_all

lemma length_values_from [simp]: "length (values_from step s j) = j"
  by (induction j arbitrary: s) simp_all

lemma values_from_add:
  "values_from step s (j + m) = values_from step s j @ values_from step (state_after step s j) m"
  by (induction j arbitrary: s) simp_all

lemma combine_first_infinite:
  "tgen_next (infinite_next step) (ts_combine [TSrc a, TSrc b])
     = Some (Iteration (VArr [fst (step a), fst (step b)]) False, combine_state step a b 1)"
proof -
  have f: "getIteratorResultAtIndex (tgen_next (infinite_next step))
       (CopyState (TCombineStart [TSrc b]) [] [Suc 0] False None) 0
     = Some (Iteration (VArr [fst (step b)]) False,
             CopyState (TCombineOne (TSrc (snd (step b)))) [VArr [fst (step b)]] [Suc 0]
               False None)"
    using fetch_One_infinite[of "TCombineStart [TSrc b]" b step "[]" "[Suc 0]"] by simp
  show ?thesis
    unfolding ts_combine_def
    by (subst tgen_next.simps, simp, subst tgen_next.simps,
        simp add: tgen_next_TSrc infinite_next_def split_beta copy_iterator_def copy_def,
        subst tgen_next.simps, simp add: copy_next_def f combine_state_def)
qed

lemma combine_step_infinite:
  "tgen_next (infinite_next step) (combine_state step a b j)
     = Some (Iteration (VArr [fst (step a), fst (step (state_after step b j))]) False,
             combine_state step a b (Suc j))"
proof -
  have f: "getIteratorResultAtIndex (tgen_next (infinite_next step))
       (CopyState (TCombineOne (TSrc (state_after step b j)))
          (map (\<lambda>w. VArr [w]) (values_from step b j)) [Suc j] False None) j
     = Some (Iteration (VArr [fst (step (state_after step b j))]) False,
             CopyState (TCombineOne (TSrc (snd (step (state_after step b j)))))
               (map (\<lambda>w. VArr [w]) (values_from step b j) @ [VArr [fst (step (state_after step b j))]])
               [Suc j] False None)"
    using fetch_One_infinite[of "TCombineOne (TSrc (state_after step b j))" "state_after step b j"
        step "map (\<lambda>w. VArr [w]) (values_from step b j)" "[Suc j]"] by simp
  show ?thesis
    unfolding combine_state_def
    by (subst tgen_next.simps)
       (simp add: copy_next_def f state_after_Suc values_from_Suc del: values_from.simps state_after.simps)
qed

lemma take_loop_combine_infinite:
  "ts_take_loop (tgen_next (infinite_next step)) (combine_state step a b j) (int m) acc
     = Some (acc @ map (\<lambda>w. VArr [fst (step a), w]) (values_from step (state_after step b j) m),
             combine_state step a b (j + m))"
proof (induction m arbitrary: j acc)
  case 0
  then show ?case by simp
next
  case (Suc m)
  have "int (Suc m) - 1 = int m" by simp
  then show ?case
    using Suc[of "Suc j" "acc @ [VArr [fst (step a), fst (step (state_after step b j))]]"]
    by (subst ts_take_loop.simps)
       (simp add: combine_step_infinite state_after_Suc del: ts_take_loop.simps state_after.simps)
qed

lemma take_combine_infinite:
  "map_option fst (ts_take (tgen_next (infinite_next step)) (ts_combine [TSrc a, TSrc b]) count)
     = Some (map (\<lambda>w. VArr [fst (step a), w]) (values_from step b (nat count)))"
proof (cases "count \<le> 0")
  case True
  then show ?thesis by (simp add: ts_take_def)
next
  case False
  then obtain m where m: "count = int (Suc m)"
    by (metis not_le zero_less_imp_eq_int gr0_implies_Suc)
  have "int (Suc m) - 1 = int m" by simp
  then have "ts_take (tgen_next (infinite_next step)) (ts_combine [TSrc a, TSrc b]) (int (Suc m))
      = Some ([VArr [fst (step a), fst (step b)]]
               @ map (\<lambda>w. VArr [fst (step a), w]) (values_from step (state_after step b 1) m),
              combine_state step a b (1 + m))"
    unfolding ts_take_def
    by (subst ts_take_loop.simps)
       (simp add: combine_first_infinite take_loop_combine_infinite
          del: ts_take_loop.simps state_after.simps)
  moreover have "nat (int (Suc m)) = Suc m" by simp
  ultimately show ?thesis unfolding m by (simp del: of_nat_Suc)
qed

text \<open>
  C1 fails for lib/index.js.  \<^verbatim>\<open>combine\<close> of two sequences ends the inner loop at
  \<^verbatim>\<open>if (nextRight)\<close>, which a falsy value of the right sequence fails just as the end of
  \<^verbatim>\<open>allRight\<close> does.  \<^verbatim>\<open>combine([range(0, 1), range(3, 4)])\<close> is the cross product,
  \<^verbatim>\<open>combine([range(0, 1), range(0, 1)])\<close> is empty, and with \<^verbatim>\<open>range(-1, 1)\<close> on the right
  the tuples of 0 and 1 are lost.  \<^verbatim>\<open>combine\<close> of the newest index.ts yields all four tuples
  of \<^verbatim>\<open>[range(0, 1), range(0, 1)]\<close>.
\<close>

theorem lib_combine_loses_falsy_values:
  "lib_combine_toArray lib_range_next [LSrc (lib_range 0 1), LSrc (lib_range 3 4)]
     = Some [VArr [VNum 0, VNum 3], VArr [VNum 0, VNum 4],
             VArr [VNum 1, VNum 3], VArr [VNum 1, VNum 4]]
   \<and> lib_combine_toArray lib_range_next [LSrc (lib_range 0 1), LSrc (lib_range 0 1)] = Some []
   \<and> lib_combine_toArray lib_range_next [LSrc (lib_range 0 1), LSrc (lib_range (- 1) 1)]
     = Some [VArr [VNum 0, VNum (- 1)], VArr [VNum 1, VNum (- 1)]]
   \<and> ts_combine_toArray ts_range_next [TSrc (ts_range 0 1), TSrc (ts_range 0 1)]
     = Some [VArr [VNum 0, VNum 0], VArr [VNum 0, VNum 1],
             VArr [VNum 1, VNum 0], VArr [VNum 1, VNum 1]]"
  by code_simp

text \<open>
  C2, as amended.  For \<^verbatim>\<open>combine\<close> of the newest index.ts, which iterates a copy of its
  right side, and any two infinite sequences: \<^verbatim>\<open>take\<close> with any count returns, and the
  tuples are the first value of the left sequence paired with the first values of the
  right one.  For the natural numbers the first three are [0,0], [0,1], [0,2].
\<close>

theorem ts_combine_of_infinite_sequences_take:
  "map_option fst (ts_take (tgen_next (infinite_next step)) (ts_combine [TSrc a, TSrc b]) count)
     = Some (map (\<lambda>w. VArr [fst (step a), w]) (values_from step b (nat count)))
   \<and> map_option fst (ts_take (tgen_next naturalNumbers_next) (ts_combine [TSrc 0, TSrc 0]) 3)
     = Some [VArr [VNum 0, VNum 0], VArr [VNum 0, VNum 1], VArr [VNum 0, VNum 2]]"
proof
  show "map_option fst (ts_take (tgen_next (infinite_next step)) (ts_combine [TSrc a, TSrc b]) count)
     = Some (map (\<lambda>w. VArr [fst (step a), w]) (values_from step b (nat count)))"
    by (rule take_combine_infinite)
  show "map_option fst (ts_take (tgen_next naturalNumbers_next) (ts_combine [TSrc 0, TSrc 0]) 3)
     = Some [VArr [VNum 0, VNum 0], VArr [VNum 0, VNum 1], VArr [VNum 0, VNum 2]]"
    unfolding naturalNumbers_infinite take_combine_infinite
    by (simp add: eval_nat_numeral)
qed

text \<open>
  C2 as stated fails for lib/index.js: \<^verbatim>\<open>combine\<close> of two sequences of natural numbers
  reads the right one with \<^verbatim>\<open>toArray\<close> and does not return, so there is nothing to
  \<^verbatim>\<open>take\<close> from.
\<close>

theorem lib_combine_of_infinite_sequences_never_returns:
  "lib_combine naturalNumbers_next [LSrc 0, LSrc 0] = None"
  by (simp add: lib_toArray_naturalNumbers)

text \<open>
  C6, as amended.  \<^verbatim>\<open>concat\<close> of lib/index.js applied to one sequence is that sequence.
  \<^verbatim>\<open>concat\<close> of the newest index.ts applied to one sequence is a generator of its own that
  yields what the sequence yields and has returned once the sequence is done.  \<^verbatim>\<open>concat\<close>
  of no sequence is done at once, and stays so, in both.
\<close>

theorem concat_of_one_and_of_none:
  "lib_concat [g] = g
   \<and> lgen_next nx (lib_concat []) = Some (Iteration VNull True, lib_concat [])
   \<and> tgen_next nx (ts_concat []) = Some (Iteration VUndefined True, TCompleted)
   \<and> tgen_next nx TCompleted = Some (Iteration VUndefined True, TCompleted)
   \<and> tgen_next nx (ts_concat [h]) =
       (case tgen_next nx h of
          None \<Rightarrow> None
        | Some (iteration, h') \<Rightarrow>
            if it_done iteration then Some (Iteration VUndefined True, TCompleted)
            else Some (Iteration (it_value iteration) False, ts_concat [h']))"
proof (intro conjI)
  show "lib_concat [g] = g" by (simp add: lib_concat_def)
  show "lgen_next nx (lib_concat []) = Some (Iteration VNull True, lib_concat [])"
    by (subst lgen_next.simps) (simp add: lib_concat_def)
  show "tgen_next nx (ts_concat []) = Some (Iteration VUndefined True, TCompleted)"
    by (subst tgen_next.simps) (simp add: ts_concat_def)
  show c: "tgen_next nx TCompleted = Some (Iteration VUndefined True, TCompleted)"
    by (subst tgen_next.simps) simp
  have e: "tgen_next nx (TConcat [h'] (Suc 0)) = Some (Iteration VUndefined True, TCompleted)" for h'
    by (subst tgen_next.simps) simp
  show "tgen_next nx (ts_concat [h]) =
       (case tgen_next nx h of
          None \<Rightarrow> None
        | Some (iteration, h') \<Rightarrow>
            if it_done iteration then Some (Iteration VUndefined True, TCompleted)
            else Some (Iteration (it_value iteration) False, ts_concat [h']))"
    unfolding ts_concat_def
    by (subst tgen_next.simps) (simp add: e split: option.split)
qed

text \<open>
  C6 as stated fails for the newest index.ts, where \<^verbatim>\<open>concat\<close> is a generator function:
  its result is never the sequence it was given.
\<close>

theorem ts_concat_of_one_is_a_new_generator:
  "ts_concat [TSrc (ts_range 0 1)] \<noteq> TSrc (ts_range 0 1)"
  by (simp add: ts_concat_def)

subsection \<open>combine of src/index.ts and the cross product\<close>

lemma agen_next_ASrc:
  "agen_next nx (ASrc s) = Option.bind (nx s) (\<lambda>(iteration, s'). Some (iteration, ASrc s'))"
  by (subst agen_next.simps) simp

lemma ts_toArray_loop_same_next:
  assumes "nx s = nx s'"
  shows "ts_toArray_loop nx s acc = ts_toArray_loop nx s' acc"
  by (subst ts_toArray_loop.simps, subst (2) ts_toArray_loop.simps) (simp add: assms)

lemma array_toArray_source:
  assumes "seq_yields nx s xs"
  shows "\<exists>s'. ts_toArray_loop (agen_next nx) (ASrc s) acc = Some (acc @ xs, ASrc s')"
  using assms
proof (induction xs arbitrary: s acc)
  case Nil
  then obtain it s' where "nx s = Some (it, s')" "it_done it"
    by (auto split: option.splits)
  then show ?case
    by (subst ts_toArray_loop.simps) (simp add: agen_next_ASrc)
next
  case (Cons x xs)
  then obtain it s1 where nx: "nx s = Some (it, s1)" "\<not> it_done it" "it_value it = x"
    and rest: "seq_yields nx s1 xs"
    by (auto split: option.splits)
  from Cons.IH[OF rest, of "acc @ [x]"] nx show ?case
    by (subst ts_toArray_loop.simps) (simp add: agen_next_ASrc)
qed

lemma array_toArray_one:
  assumes "seq_yields nx s xs"
  shows "\<exists>g'. ts_toArray_loop (agen_next nx) (ACombineOne (ASrc s)) acc
           = Some (acc @ map (\<lambda>x. VArr [x]) xs, g')"
  using assms
proof (induction xs arbitrary: s acc)
  case Nil
  then obtain it s' where "nx s = Some (it, s')" "it_done it"
    by (auto split: option.splits)
  then have "agen_next nx (ACombineOne (ASrc s)) = Some (Iteration VUndefined True, ACompleted)"
    by (subst agen_next.simps) (simp add: agen_next_ASrc)
  then show ?case
    by (subst ts_toArray_loop.simps) simp
next
  case (Cons x xs)
  then obtain it s1 where nx: "nx s = Some (it, s1)" "\<not> it_done it" "it_value it = x"
    and rest: "seq_yields nx s1 xs"
    by (auto split: option.splits)
  from nx have "agen_next nx (ACombineOne (ASrc s))
      = Some (Iteration (VArr [x]) False, ACombineOne (ASrc s1))"
    by (subst agen_next.simps) (simp add: agen_next_ASrc)
  with Cons.IH[OF rest, of "acc @ [VArr [x]]"] show ?case
    by (subst ts_toArray_loop.simps) simp
qed

lemma array_toArray_inner:
  assumes "i < length hv" and "j \<le> length tcs"
  shows "ts_toArray_loop (agen_next nx) (ACombineMany hv (map VArr tcs) i j) acc
     = ts_toArray_loop (agen_next nx) (ACombineMany hv (map VArr tcs) (i + 1) 0)
         (acc @ map (\<lambda>t. VArr (hv ! i # t)) (drop j tcs))"
  using assms(2)
proof (induction "length tcs - j" arbitrary: j acc)
  case 0
  then have j: "j = length tcs" by simp
  have "agen_next nx (ACombineMany hv (map VArr tcs) i j)
      = agen_next nx (ACombineMany hv (map VArr tcs) (i + 1) 0)"
    using assms(1) j by (subst agen_next.simps) simp
  from ts_toArray_loop_same_next[OF this] j show ?case by simp
next
  case (Suc k)
  then have lt: "j < length tcs" and k: "k = length tcs - Suc j" by simp_all
  have step: "agen_next nx (ACombineMany hv (map VArr tcs) i j)
      = Some (Iteration (VArr (hv ! i # tcs ! j)) False,
              ACombineMany hv (map VArr tcs) i (Suc j))"
    using assms(1) lt by (subst agen_next.simps) simp
  have d: "drop j tcs = tcs ! j # drop (Suc j) tcs"
    using lt by (simp add: Cons_nth_drop_Suc)
  from Suc.hyps(1)[OF k, of "acc @ [VArr (hv ! i # tcs ! j)]"] lt show ?case
    by (subst ts_toArray_loop.simps) (simp add: step d)
qed

lemma array_toArray_outer:
  assumes "i \<le> length hv"
  shows "ts_toArray_loop (agen_next nx) (ACombineMany hv (map VArr tcs) i 0) acc
     = Some (acc @ concat (map (\<lambda>x. map (\<lambda>t. VArr (x # t)) tcs) (drop i hv)), ACompleted)"
  using assms
proof (induction "length hv - i" arbitrary: i acc)
  case 0
  then have i: "i = length hv" by simp
  have "agen_next nx (ACombineMany hv (map VArr tcs) i 0)
      = Some (Iteration VUndefined True, ACompleted)"
    using i by (subst agen_next.simps) simp
  then show ?case using i by (subst ts_toArray_loop.simps) simp
next
  case (Suc k)
  then have lt: "i < length hv" and k: "k = length hv - Suc i" by simp_all
  have d: "drop i hv = hv ! i # drop (Suc i) hv"
    using lt by (simp add: Cons_nth_drop_Suc)
  from array_toArray_inner[OF lt, of 0 tcs nx acc] Suc.hyps(1)[OF k] lt show ?case
    by (simp add: d)
qed

lemma ts_combine_array_finite:
  assumes "list_all2 (seq_yields nx) ss xss"
  shows "\<exists>g'. ts_toArray_loop (agen_next nx) (ACombineStart (map ASrc ss)) []
           = Some (map VArr (spec_combine xss), g')"
  using assms
proof (induction rule: list_all2_induct)
  case Nil
  have "agen_next nx (ACombineStart []) = Some (Iteration VUndefined True, ACompleted)"
    by (subst agen_next.simps) simp
  then show ?case by (subst ts_toArray_loop.simps) simp
next
  case (Cons s srest xs rest)
  note y = Cons.hyps(1) and rest = Cons.hyps(2)
  show ?case
  proof (cases rest)
    case Nil
    with rest have ss1: "srest = []" by simp
    have "agen_next nx (ACombineStart [ASrc s]) = agen_next nx (ACombineOne (ASrc s))"
      by (subst agen_next.simps) simp
    from ts_toArray_loop_same_next[OF this] array_toArray_one[OF y, of "[]"] ss1 Nil show ?thesis
      by (simp add: comp_def)
  next
    case inner: (Cons ys yss)
    from rest inner have len: "srest \<noteq> []" by auto
    from Cons.IH inner obtain g' where
      tl: "ts_toArray (agen_next nx) (ACombineStart (map ASrc srest))
             = Some (map VArr (spec_combine (ys # yss)), g')"
      by (auto simp: ts_toArray_def)
    from array_toArray_source[OF y, of "[]"] obtain s' where
      hd: "ts_toArray (agen_next nx) (ASrc s) = Some (xs, ASrc s')"
      by (auto simp: ts_toArray_def)
    have "agen_next nx (ACombineStart (map ASrc (s # srest)))
        = agen_next nx (ACombineMany xs (map VArr (spec_combine (ys # yss))) 0 0)"
      using len hd tl by (subst agen_next.simps) (simp add: drop_Suc)
    from ts_toArray_loop_same_next[OF this]
      array_toArray_outer[of 0 xs nx "spec_combine (ys # yss)" "[]"]
    show ?thesis unfolding inner
      by (simp add: map_concat comp_def)
  qed
qed

text \<open>
  \<^verbatim>\<open>combine\<close> of src/index.ts does what C1 says: for finite sequences with the values
  \<open>xss\<close>, \<^verbatim>\<open>Array.from(combine(generators))\<close> returns the cross product in odometer order.
\<close>

theorem ts_combine_array_is_cross_product:
  assumes "list_all2 (seq_yields nx) ss xss"
  shows "map_option fst (ts_toArray (agen_next nx) (ts_combine_array (map ASrc ss)))
           = Some (map VArr (spec_combine xss))"
  using ts_combine_array_finite[OF assms]
  by (auto simp: ts_toArray_def ts_combine_array_def)

subsection \<open>combine of the newest index.ts and the cross product\<close>

lemma seq_yields_same_next:
  assumes "nx s = nx s'"
  shows "seq_yields nx s xs = seq_yields nx s' xs"
  using assms by (cases xs) simp_all

lemma seq_yields_toArray_loop:
  assumes "seq_yields nx s xs"
  shows "\<exists>s'. ts_toArray_loop nx s acc = Some (acc @ xs, s')"
  using assms
proof (induction xs arbitrary: s acc)
  case Nil
  then obtain it s' where "nx s = Some (it, s')" "it_done it"
    by (auto split: option.splits)
  then show ?case
    by (subst ts_toArray_loop.simps) simp
next
  case (Cons x xs)
  then obtain it s1 where nx: "nx s = Some (it, s1)" "\<not> it_done it" "it_value it = x"
    and rest: "seq_yields nx s1 xs"
    by (auto split: option.splits)
  from Cons.IH[OF rest, of "acc @ [x]"] nx show ?case
    by (subst ts_toArray_loop.simps) simp
qed

lemma seq_yields_source:
  assumes "seq_yields nx s xs"
  shows "seq_yields (tgen_next nx) (TSrc s) xs"
  using assms
  by (induction xs arbitrary: s) (auto simp: tgen_next_TSrc split: option.splits)

lemma seq_yields_one:
  assumes "seq_yields (tgen_next nx) g xs"
  shows "seq_yields (tgen_next nx) (TCombineOne g) (map wrap xs)"
  using assms
proof (induction xs arbitrary: g)
  case Nil
  then obtain it g' where "tgen_next nx g = Some (it, g')" "it_done it"
    by (auto split: option.splits)
  then have "tgen_next nx (TCombineOne g) = Some (Iteration VUndefined True, TCompleted)"
    by (subst tgen_next.simps) simp
  then show ?case by simp
next
  case (Cons x xs)
  then obtain it g1 where nx: "tgen_next nx g = Some (it, g1)" "\<not> it_done it" "it_value it = x"
    and rest: "seq_yields (tgen_next nx) g1 xs"
    by (auto split: option.splits)
  from nx have "tgen_next nx (TCombineOne g)
      = Some (Iteration (VArr [x]) False, TCombineOne g1)"
    by (subst tgen_next.simps) simp
  with Cons.IH[OF rest] show ?case by (simp add: wrap_def)
qed

lemma copy_next_fetch:
  assumes "copy_inv nx xs c" and "copy_indexes c ! ident \<le> length xs"
  shows "\<exists>c'. copy_next nx c ident =
            Some (Iteration (js_index xs (copy_indexes c ! ident))
                    (length xs \<le> copy_indexes c ! ident), c')
          \<and> copy_inv nx xs c'
          \<and> copy_indexes c' = (copy_indexes c)[ident := copy_indexes c ! ident + 1]"
proof -
  let ?k = "copy_indexes c ! ident"
  let ?c0 = "CopyState (copy_iterable c) (copy_values c) ((copy_indexes c)[ident := ?k + 1])
              (copy_done c) (copy_maxIndex c)"
  have inv0: "copy_inv nx xs ?c0" using assms(1) by (simp add: copy_inv_def)
  from copy_fetch[OF inv0 assms(2)] obtain c' where
    c': "getIteratorResultAtIndex nx ?c0 ?k =
            Some (Iteration (js_index xs ?k) (length xs \<le> ?k), c')"
      "copy_inv nx xs c'"
      "copy_indexes c' = (copy_indexes c)[ident := ?k + 1]"
    by auto
  then show ?thesis
    by (intro exI[of _ c']) (simp add: copy_next_def Let_def)
qed

lemma seq_yields_inner:
  assumes "copy_inv (tgen_next nx) ts c"
    and "ident < length (copy_indexes c)" and "copy_indexes c ! ident = p" and "p \<le> length ts"
    and "\<And>c'. copy_inv (tgen_next nx) ts c' \<Longrightarrow>
            seq_yields (tgen_next nx) (TCombineMany g c' None) rest"
  shows "seq_yields (tgen_next nx) (TCombineMany g c (Some (h, ident)))
           (map (spread_cons h) (drop p ts) @ rest)"
  using assms(1-4)
proof (induction "length ts - p" arbitrary: c p)
  case 0
  then have p: "p = length ts" by simp
  from copy_next_fetch[OF 0(2), of ident] 0(4) p obtain c' where
    c': "copy_next (tgen_next nx) c ident = Some (Iteration (js_index ts p) True, c')"
      "copy_inv (tgen_next nx) ts c'"
    by auto
  then have "tgen_next nx (TCombineMany g c (Some (h, ident)))
      = tgen_next nx (TCombineMany g c' None)"
    by (subst tgen_next.simps) simp
  from seq_yields_same_next[OF this] assms(5)[OF c'(2)] p show ?case by simp
next
  case (Suc k)
  then have p: "p < length ts" by simp
  from copy_next_fetch[OF Suc(3), of ident] Suc(5) p obtain c' where
    c': "copy_next (tgen_next nx) c ident = Some (Iteration (ts ! p) False, c')"
      "copy_inv (tgen_next nx) ts c'"
      "copy_indexes c' = (copy_indexes c)[ident := p + 1]"
    by (auto simp: js_index_def)
  then have step: "tgen_next nx (TCombineMany g c (Some (h, ident)))
      = Some (Iteration (spread_cons h (ts ! p)) False, TCombineMany g c' (Some (h, ident)))"
    by (subst tgen_next.simps) simp
  have "seq_yields (tgen_next nx) (TCombineMany g c' (Some (h, ident)))
           (map (spread_cons h) (drop (p + 1) ts) @ rest)"
  proof (rule Suc(1))
    show "k = length ts - (p + 1)" using Suc(2) by simp
    show "copy_inv (tgen_next nx) ts c'" by (rule c'(2))
    show "ident < length (copy_indexes c')" using Suc(4) c'(3) by simp
    show "copy_indexes c' ! ident = p + 1" using Suc(4) c'(3) by simp
    show "p + 1 \<le> length ts" using p by simp
  qed
  moreover have "drop p ts = ts ! p # drop (p + 1) ts"
    using p by (simp add: Cons_nth_drop_Suc)
  ultimately show ?case using step by simp
qed

lemma seq_yields_outer:
  assumes "seq_yields (tgen_next nx) g hs" and "copy_inv (tgen_next nx) ts c"
  shows "seq_yields (tgen_next nx) (TCombineMany g c None)
           (concat (map (\<lambda>h. map (spread_cons h) ts) hs))"
  using assms
proof (induction hs arbitrary: g c)
  case Nil
  then obtain it g' where "tgen_next nx g = Some (it, g')" "it_done it"
    by (auto split: option.splits)
  then have "tgen_next nx (TCombineMany g c None) = Some (Iteration VUndefined True, TCompleted)"
    by (subst tgen_next.simps) simp
  then show ?case by simp
next
  case (Cons h hs)
  then obtain it g1 where nx: "tgen_next nx g = Some (it, g1)" "\<not> it_done it" "it_value it = h"
    and rest: "seq_yields (tgen_next nx) g1 hs"
    by (auto split: option.splits)
  let ?c1 = "snd (copy_iterator c)"
  let ?ident = "length (copy_indexes c)"
  have inv1: "copy_inv (tgen_next nx) ts ?c1"
    using Cons.prems(2) by (simp add: copy_inv_def copy_iterator_def)
  from nx have "tgen_next nx (TCombineMany g c None)
      = tgen_next nx (TCombineMany g1 ?c1 (Some (h, ?ident)))"
    by (subst tgen_next.simps) (simp add: copy_iterator_def)
  note same = seq_yields_same_next[OF this]
  have "seq_yields (tgen_next nx) (TCombineMany g1 ?c1 (Some (h, ?ident)))
           (map (spread_cons h) (drop 0 ts) @ concat (map (\<lambda>h. map (spread_cons h) ts) hs))"
  proof (rule seq_yields_inner[OF inv1])
    show "?ident < length (copy_indexes ?c1)" by (simp add: copy_iterator_def)
    show "copy_indexes ?c1 ! ?ident = 0" by (simp add: copy_iterator_def)
    show "0 \<le> length ts" by simp
    show "seq_yields (tgen_next nx) (TCombineMany g1 c' None)
            (concat (map (\<lambda>h. map (spread_cons h) ts) hs))"
      if "copy_inv (tgen_next nx) ts c'" for c'
      using Cons.IH[OF rest that] .
  qed
  then show ?case unfolding same by simp
qed

lemma ts_combine_yields:
  assumes "list_all2 (seq_yields nx) ss xss"
  shows "seq_yields (tgen_next nx) (TCombineStart (map TSrc ss)) (map VArr (spec_combine xss))"
  using assms
proof (induction rule: list_all2_induct)
  case Nil
  have "tgen_next nx (TCombineStart []) = Some (Iteration VUndefined True, TCompleted)"
    by (subst tgen_next.simps) simp
  then show ?case by simp
next
  case (Cons s srest xs rest)
  note y = Cons.hyps(1) and rest = Cons.hyps(2)
  show ?case
  proof (cases rest)
    case Nil
    with rest have ss1: "srest = []" by simp
    have "tgen_next nx (TCombineStart [TSrc s]) = tgen_next nx (TCombineOne (TSrc s))"
      by (subst tgen_next.simps) simp
    from seq_yields_same_next[OF this] seq_yields_one[OF seq_yields_source[OF y]] ss1 Nil
    show ?thesis by (simp add: comp_def wrap_def[abs_def])
  next
    case inner: (Cons ys yss)
    from rest inner have len: "srest \<noteq> []" by auto
    let ?ts = "map VArr (spec_combine (ys # yss))"
    let ?c = "copy (TCombineStart (map TSrc srest))"
    have inv: "copy_inv (tgen_next nx) ?ts ?c"
      using Cons.IH inner by (simp add: copy_inv_def copy_def)
    have "tgen_next nx (TCombineStart (map TSrc (s # srest)))
        = tgen_next nx (TCombineMany (TSrc s) ?c None)"
      using len by (subst tgen_next.simps) (cases srest; simp add: drop_Suc)
    from seq_yields_same_next[OF this]
      seq_yields_outer[OF seq_yields_source[OF y] inv]
    show ?thesis unfolding inner
      by (simp add: map_concat comp_def)
  qed
qed

text \<open>
  \<^verbatim>\<open>combine\<close> of the newest index.ts does what C1 says as well: for finite sequences with
  the values \<open>xss\<close>, \<^verbatim>\<open>Array.from(combine(generators))\<close> returns the cross product in
  odometer order.  The combinations of the tail are computed once, in the copy, and
  replayed for every value of the head.
\<close>

theorem ts_combine_is_cross_product:
  assumes "list_all2 (seq_yields nx) ss xss"
  shows "ts_combine_toArray nx (map TSrc ss) = Some (map VArr (spec_combine xss))"
  using seq_yields_toArray_loop[OF ts_combine_yields[OF assms], of "[]"]
  by (auto simp: ts_toArray_def ts_combine_def ts_combine_toArray_def)

end
